theory Spec2Isabelle
  imports Main "HOL-Library.Word"
begin

unbundle bit_operations_syntax

section \<open>The HC908JB8 USB ICP manager (tools/manage.c)\<close>

text \<open>
  The model follows \<^verbatim>\<open>manage.c\<close> function by function. C integers of type
  \<^verbatim>\<open>int\<close> whose values stay far from the 32-bit limits are \<open>int\<close> or \<open>nat\<close>;
  \<^verbatim>\<open>unsigned char\<close> is \<open>8 word\<close> and \<^verbatim>\<open>unsigned int\<close> is \<open>32 word\<close>, so that
  every truncation of the source is visible. Undefined behaviour of the C program
  (an access outside an array) is a value of type \<open>fault\<close>.
\<close>

type_synonym byte = "8 word"

subsection \<open>Constants\<close>

abbreviation (input) MAX_LINE_LEN :: nat where "MAX_LINE_LEN \<equiv> 512"
abbreviation (input) MEM_SIZE :: nat where "MEM_SIZE \<equiv> 0x1C00"
abbreviation (input) MEM_OFFSET :: nat where "MEM_OFFSET \<equiv> 0xDC00"
abbreviation (input) MEM_BLOCK_SIZE :: nat where "MEM_BLOCK_SIZE \<equiv> 0x200"
abbreviation (input) MEM_PROG_BLOCK_SIZE :: nat where "MEM_PROG_BLOCK_SIZE \<equiv> 0x40"
abbreviation (input) WAIT_PROGRAMMING :: nat where "WAIT_PROGRAMMING \<equiv> 70"
abbreviation (input) WAIT_STATUS :: nat where "WAIT_STATUS \<equiv> 5"
abbreviation (input) ICP_CHECKSUM_START :: nat where "ICP_CHECKSUM_START \<equiv> 0xF600"
abbreviation (input) ICP_CHECKSUM_STOP :: nat where "ICP_CHECKSUM_STOP \<equiv> 0xF7FD"
abbreviation (input) ICP_FLAG_ADDRESS :: nat where "ICP_FLAG_ADDRESS \<equiv> 0xF7FE"

abbreviation (input) HID_VID :: nat where "HID_VID \<equiv> 0x0c74"
abbreviation (input) HID_PID :: nat where "HID_PID \<equiv> 0x4008"
abbreviation (input) ICP_VID :: nat where "ICP_VID \<equiv> 0x0425"
abbreviation (input) ICP_PID :: nat where "ICP_PID \<equiv> 0xff01"

abbreviation (input) HRM_OK :: int where "HRM_OK \<equiv> 1"
abbreviation (input) HRM_ERROR :: int where "HRM_ERROR \<equiv> - 1"

abbreviation (input) HRM_NO_ERRORS :: nat where "HRM_NO_ERRORS \<equiv> 0"
abbreviation (input) HRM_USB_OPEN_ERROR :: nat where "HRM_USB_OPEN_ERROR \<equiv> 1"
abbreviation (input) HRM_USB_CONFIG_ERROR :: nat where "HRM_USB_CONFIG_ERROR \<equiv> 2"
abbreviation (input) HRM_FILE_OPEN_ERROR :: nat where "HRM_FILE_OPEN_ERROR \<equiv> 3"
abbreviation (input) HRM_FLASH_ERASE_ERROR :: nat where "HRM_FLASH_ERASE_ERROR \<equiv> 4"
abbreviation (input) HRM_FLASH_PROGRAM_ERROR :: nat where "HRM_FLASH_PROGRAM_ERROR \<equiv> 5"

subsection \<open>The data of a run: \<^verbatim>\<open>struct HRM_Data\<close>\<close>

text \<open>
  \<open>usb_dev\<close> records whether the handle is non-NULL; the file name is replaced by
  the contents of the file where \<^verbatim>\<open>HRM_ICP_ReadS19\<close> is called; \<^verbatim>\<open>verbose_mode\<close>
  only steers printing, which is not modelled.
\<close>

record HRM_Data =
  icp_flag_calculated :: "32 word"
  icp_flag :: "32 word"
  usb_dev :: bool
  mem :: "byte list"
  last_errorcode :: nat

datatype fault = MemOverrun | LineOverrun

subsection \<open>The C library functions the parser calls\<close>

abbreviation (input) NUL :: char where "NUL \<equiv> CHR 0x00"

text \<open>
  \<^verbatim>\<open>fgets(line, n, fp)\<close> reads at most \<open>n - 1\<close> characters and stops after a
  newline or at the end of the file; \<open>fgets_take (n - 1)\<close> is the part read. At the
  end of the file nothing is read and the result is NULL (\<open>None\<close>).
\<close>

fun fgets_take :: "nat \<Rightarrow> string \<Rightarrow> string" where
  "fgets_take 0 s = []"
| "fgets_take (Suc k) [] = []"
| "fgets_take (Suc k) (c # cs) = (if c = CHR 0x0A then [c] else c # fgets_take k cs)"

definition fgets :: "nat \<Rightarrow> string \<Rightarrow> (string \<times> string) option" where
  "fgets n fp =
     (if fp = [] then None
      else let chunk = fgets_take (n - 1) fp in Some (chunk, drop (length chunk) fp))"

text \<open>
  The array \<^verbatim>\<open>line\<close> keeps its old contents behind the characters and the
  terminating NUL that \<^verbatim>\<open>fgets\<close> stores.
\<close>

definition store_line :: "string \<Rightarrow> string \<Rightarrow> string" where
  "store_line chunk line = chunk @ NUL # drop (Suc (length chunk)) line"

text \<open>
  \<^verbatim>\<open>strncpy(dst, line + off, n)\<close> into a buffer whose byte \<open>n\<close> is NUL: the C
  string left in \<open>dst\<close>. It reads \<open>line\<close> character by character and stops at a NUL;
  a read at or beyond the end of the array is undefined.
\<close>

fun strncpy_from :: "string \<Rightarrow> nat \<Rightarrow> nat \<Rightarrow> fault + string" where
  "strncpy_from line off 0 = Inr []"
| "strncpy_from line off (Suc n) =
     (if length line \<le> off then Inl LineOverrun
      else if line ! off = NUL then Inr []
      else (case strncpy_from line (Suc off) n of
              Inl f \<Rightarrow> Inl f
            | Inr s \<Rightarrow> Inr (line ! off # s)))"

definition isspace :: "char \<Rightarrow> bool" where
  "isspace c = (c = CHR '' '' \<or> c = CHR 0x09 \<or> c = CHR 0x0A \<or> c = CHR 0x0B
                 \<or> c = CHR 0x0C \<or> c = CHR 0x0D)"

definition xdigit :: "char \<Rightarrow> nat option" where
  "xdigit c =
     (let n = (of_char c :: nat) in
      if 48 \<le> n \<and> n \<le> 57 then Some (n - 48)
      else if 65 \<le> n \<and> n \<le> 70 then Some (n - 55)
      else if 97 \<le> n \<and> n \<le> 102 then Some (n - 87)
      else None)"

fun hex_digits :: "nat \<Rightarrow> string \<Rightarrow> nat" where
  "hex_digits acc [] = acc"
| "hex_digits acc (c # cs) =
     (case xdigit c of None \<Rightarrow> acc | Some d \<Rightarrow> hex_digits (16 * acc + d) cs)"

text \<open>
  \<^verbatim>\<open>strtoul(s, NULL, 16)\<close> on the strings of at most four characters that the
  program passes: white space, an optional sign, an optional \<^verbatim>\<open>0x\<close> that a hex
  digit follows, then hex digits up to the first other character; no digits give 0.
  With a minus sign C returns \<open>2 ^ N - v\<close> in \<^verbatim>\<open>unsigned long\<close>; the program
  converts every result to \<^verbatim>\<open>int\<close> or \<^verbatim>\<open>unsigned char\<close>, where that is \<open>- v\<close>
  (as \<open>v < 2 ^ 16\<close>), so the model returns \<open>- v\<close>.
\<close>

definition strtoul16 :: "string \<Rightarrow> int" where
  "strtoul16 s =
     (let s1 = dropWhile isspace s;
          neg = (s1 \<noteq> [] \<and> hd s1 = CHR ''-'');
          s2 = (if s1 \<noteq> [] \<and> (hd s1 = CHR ''-'' \<or> hd s1 = CHR ''+'') then tl s1 else s1);
          s3 = (case s2 of
                  z # x # d # cs \<Rightarrow>
                    if z = CHR ''0'' \<and> (x = CHR ''x'' \<or> x = CHR ''X'') \<and> xdigit d \<noteq> None
                    then d # cs else s2
                | _ \<Rightarrow> s2);
          v = int (hex_digits 0 s3)
      in if neg then - v else v)"

subsection \<open>\<^verbatim>\<open>HRM_ICP_ReadS19\<close>\<close>

text \<open>
  The loop over the data bytes of an S1 line, \<open>n\<close> iterations from index \<open>i\<close> on:
  it stores each byte in \<open>mem\<close> and adds it to \<^verbatim>\<open>calc_crc\<close>. \<open>address\<close> has passed
  the range check, so \<open>address - MEM_OFFSET + i\<close> is not negative; an index from
  \<open>MEM_SIZE\<close> on is outside \<^verbatim>\<open>hrm->mem\<close>.
\<close>

fun data_loop ::
  "string \<Rightarrow> int \<Rightarrow> nat \<Rightarrow> nat \<Rightarrow> byte list \<Rightarrow> byte \<Rightarrow> fault + (byte list \<times> byte)" where
  "data_loop line address 0 i m calc_crc = Inr (m, calc_crc)"
| "data_loop line address (Suc n) i m calc_crc =
     (case strncpy_from line (8 + 2 * i) 2 of
        Inl f \<Rightarrow> Inl f
      | Inr sdata_str \<Rightarrow>
          let sdata = (word_of_int (strtoul16 sdata_str) :: byte);
              idx = nat (address - int MEM_OFFSET) + i
          in if MEM_SIZE \<le> idx then Inl MemOverrun
             else data_loop line address n (Suc i) (m[idx := sdata]) (calc_crc + sdata))"

text \<open>
  The body of the branch for a line that starts with \<^verbatim>\<open>S1\<close>. The result is the
  memory and, unless the range check left the iteration by \<^verbatim>\<open>continue\<close>, the two
  locals \<^verbatim>\<open>crc\<close> and \<^verbatim>\<open>calc_crc\<close>, which the source computes and never reads.
  \<^verbatim>\<open>calc_datalen\<close>, computed from \<^verbatim>\<open>strlen(line)\<close> and never read either, is left
  out.
\<close>

definition s1_line :: "string \<Rightarrow> byte list \<Rightarrow> fault + (byte list \<times> (byte \<times> byte) option)" where
  "s1_line line m =
     (case strncpy_from line 2 2 of
        Inl f \<Rightarrow> Inl f
      | Inr datalen_str \<Rightarrow>
     (case strncpy_from line 4 4 of
        Inl f \<Rightarrow> Inl f
      | Inr address_str \<Rightarrow>
          let datalen = strtoul16 datalen_str;
              address = strtoul16 address_str
          in if address < int MEM_OFFSET \<or> int (MEM_OFFSET + MEM_SIZE) \<le> address
             then Inr (m, None)
             else (case data_loop line address (nat (datalen - 3)) 0 m 0 of
                     Inl f \<Rightarrow> Inl f
                   | Inr (m', calc_crc) \<Rightarrow>
                  (case strncpy_from line (8 + 2 * nat (datalen - 3)) 2 of
                     Inl f \<Rightarrow> Inl f
                   | Inr sdata_str \<Rightarrow>
                       let crc = (word_of_int (strtoul16 sdata_str) :: byte);
                           calc_crc' = (word_of_int
                              (0xff - (uint calc_crc + datalen + address div 256
                                       + address mod 256)) :: byte)
                       in Inr (m', Some (crc, calc_crc'))))))"

text \<open>
  The \<^verbatim>\<open>while(!feof(fp))\<close> loop: \<open>line\<close> is the line buffer as the last
  \<^verbatim>\<open>fgets\<close> left it, \<open>fp\<close> the unread rest of the file.
\<close>

function read_lines :: "string \<Rightarrow> byte list \<Rightarrow> string \<Rightarrow> fault + byte list" where
  "read_lines line m fp =
     (case fgets MAX_LINE_LEN fp of
        None \<Rightarrow> Inr m
      | Some (chunk, fp') \<Rightarrow>
          let line' = store_line chunk line in
          if line' ! 0 = CHR ''S'' \<and> line' ! 1 = CHR ''1'' then
            (case s1_line line' m of
               Inl f \<Rightarrow> Inl f
             | Inr (m', crcs) \<Rightarrow> read_lines line' m' fp')
          else if line' ! 0 = CHR ''S'' \<and> line' ! 1 = CHR ''9'' then Inr m
          else read_lines line' m fp')"
  by pat_completeness auto
termination
proof -
  have len: "length (fgets_take k s) \<le> length s" for k s
    by (induction k s rule: fgets_take.induct) auto
  have nonempty: "0 < k \<Longrightarrow> s \<noteq> [] \<Longrightarrow> fgets_take k s \<noteq> []" for k s
    by (cases k; cases s) auto
  have shorter: "length fp' < length fp"
    if "fgets MAX_LINE_LEN fp = Some (chunk, fp')" for fp chunk fp'
    using that len [of 511 fp] nonempty [of 511 fp]
    by (auto simp: fgets_def Let_def split: if_splits)
  show ?thesis
    by (relation "measure (\<lambda>(line, m, fp). length fp)") (auto dest: shorter)
qed

declare read_lines.simps [simp del]

text \<open>The ICP flag: the checksum of the bytes at 0xF600 .. 0xF7FD, and the stored flag.\<close>

definition checksum_sum :: "byte list \<Rightarrow> 32 word" where
  "checksum_sum m =
     fold (\<lambda>i acc. acc + ucast (m ! (i - MEM_OFFSET))) [ICP_CHECKSUM_START ..< Suc ICP_CHECKSUM_STOP] 0"

definition calc_icp_flag :: "byte list \<Rightarrow> 32 word" where
  "calc_icp_flag m = 0xffff - (0xffff AND checksum_sum m) + 1"

definition file_icp_flag :: "byte list \<Rightarrow> 32 word" where
  "file_icp_flag m =
     push_bit 8 (ucast (m ! (ICP_FLAG_ADDRESS - MEM_OFFSET)))
       + ucast (m ! (ICP_FLAG_ADDRESS - MEM_OFFSET + 1))"

definition set_icp_flags :: "HRM_Data \<Rightarrow> HRM_Data" where
  "set_icp_flags hrm =
     hrm\<lparr>icp_flag_calculated := calc_icp_flag (mem hrm), icp_flag := file_icp_flag (mem hrm)\<rparr>"

text \<open>
  \<open>line0\<close> is the indeterminate initial contents of the local array \<^verbatim>\<open>line\<close>, a
  list of \<open>MAX_LINE_LEN\<close> characters; \<open>file\<close> is the contents of the file, \<open>None\<close>
  when \<^verbatim>\<open>fopen\<close> fails.
\<close>

definition HRM_ICP_ReadS19 ::
  "string \<Rightarrow> string option \<Rightarrow> HRM_Data \<Rightarrow> fault + (int \<times> HRM_Data)" where
  "HRM_ICP_ReadS19 line0 file hrm =
     (let hrm1 = hrm\<lparr>last_errorcode := 0, mem := replicate MEM_SIZE 0xff\<rparr> in
      case file of
        None \<Rightarrow> Inr (HRM_ERROR, hrm1\<lparr>last_errorcode := HRM_FILE_OPEN_ERROR\<rparr>)
      | Some fp \<Rightarrow>
          (case read_lines line0 (mem hrm1) fp of
             Inl f \<Rightarrow> Inl f
           | Inr m \<Rightarrow>
               Inr (HRM_OK, set_icp_flags (hrm1\<lparr>mem := m\<rparr>))))"

subsection \<open>The USB transport and the outside world\<close>

text \<open>
  What a run does to the outside is a list of events, in order: the calls of the
  libusb functions, the calls of \<^verbatim>\<open>Sleep\<close>, and how the process ends. Printing is
  left out. \<open>UsbOpen vid pid h\<close> is a call of \<^verbatim>\<open>HRM_OpenUSB\<close> and whether it
  returned a handle; \<open>UsbControlMsg\<close> carries the request type, the request, value,
  index, the bytes sent and the size argument of \<^verbatim>\<open>usb_control_msg\<close>.
\<close>

datatype event =
    UsbOpen nat nat bool
  | UsbSetConfiguration int
  | UsbClearHalt
  | UsbResetEp
  | UsbControlMsg nat nat nat nat "byte list" nat
  | UsbClose
  | Sleep nat
  | Exit int
  | Undefined_Behaviour fault

record world =
  trace :: "event list"
  msgs :: nat
  opens :: nat

text \<open>
  The device in ICP mode answers the \<open>n\<close>-th control transfer of the run with the
  return value of \<^verbatim>\<open>usb_control_msg\<close> and, for a status poll, the value that the
  variable \<^verbatim>\<open>status\<close> holds after the call.
\<close>

type_synonym device = "nat \<Rightarrow> int \<times> byte"

definition emit :: "event \<Rightarrow> world \<Rightarrow> world" where
  "emit ev w = w\<lparr>trace := trace w @ [ev]\<rparr>"

definition usb_control_msg ::
  "device \<Rightarrow> nat \<Rightarrow> nat \<Rightarrow> nat \<Rightarrow> nat \<Rightarrow> byte list \<Rightarrow> nat \<Rightarrow> world \<Rightarrow> (int \<times> byte) \<times> world" where
  "usb_control_msg dev requesttype request val idx bytes sz w =
     (dev (msgs w), (emit (UsbControlMsg requesttype request val idx bytes sz) w)\<lparr>msgs := Suc (msgs w)\<rparr>)"

subsection \<open>\<^verbatim>\<open>HRM_ICP_EraseFlashBlock\<close> and \<^verbatim>\<open>HRM_ICP_EraseFlash\<close>\<close>

definition HRM_ICP_EraseFlashBlock ::
  "device \<Rightarrow> HRM_Data \<Rightarrow> world \<Rightarrow> nat \<Rightarrow> int \<times> HRM_Data \<times> world" where
  "HRM_ICP_EraseFlashBlock dev hrm w block_start_addr =
     (let hrm1 = hrm\<lparr>last_errorcode := 0\<rparr> in
      if \<not> usb_dev hrm1 then (HRM_ERROR, hrm1\<lparr>last_errorcode := HRM_FLASH_ERASE_ERROR\<rparr>, w)
      else
        let (r1, w1) = usb_control_msg dev 0x40 0x82 block_start_addr
                         (block_start_addr + MEM_BLOCK_SIZE - 1) [] 0 w;
            result = (word_of_int (fst r1) :: byte);
            w2 = emit (Sleep 5) w1;
            (r2, w3) = usb_control_msg dev 0xC0 0x8F 0 0 [] 1 w2;
            result = (word_of_int (fst r2) :: byte);
            status = snd r2;
            w4 = emit (Sleep 5) w3
        in if status \<noteq> 1 \<or> result \<noteq> 1
           then (HRM_ERROR, hrm1\<lparr>last_errorcode := HRM_FLASH_ERASE_ERROR\<rparr>, w4)
           else (HRM_OK, hrm1, w4))"

function erase_loop :: "device \<Rightarrow> nat \<Rightarrow> HRM_Data \<Rightarrow> world \<Rightarrow> int \<times> HRM_Data \<times> world" where
  "erase_loop dev i hrm w =
     (if i < MEM_OFFSET + MEM_SIZE then
        (case HRM_ICP_EraseFlashBlock dev hrm w i of
           (r, hrm', w') \<Rightarrow>
             if r = HRM_ERROR then (HRM_ERROR, hrm'\<lparr>last_errorcode := HRM_FLASH_ERASE_ERROR\<rparr>, w')
             else erase_loop dev (i + MEM_BLOCK_SIZE) hrm' w')
      else (HRM_OK, hrm, w))"
  by pat_completeness auto
termination
  by (relation "measure (\<lambda>(dev, i, hrm, w). MEM_OFFSET + MEM_SIZE - i)") auto

declare erase_loop.simps [simp del]

definition HRM_ICP_EraseFlash :: "device \<Rightarrow> HRM_Data \<Rightarrow> world \<Rightarrow> int \<times> HRM_Data \<times> world" where
  "HRM_ICP_EraseFlash dev hrm w = erase_loop dev MEM_OFFSET (hrm\<lparr>last_errorcode := 0\<rparr>) w"

subsection \<open>\<^verbatim>\<open>HRM_ICP_ProgramFlash\<close>\<close>

text \<open>The inner loop that looks for a byte other than 0xff in the block at \<open>i\<close>.\<close>

definition block_valid :: "byte list \<Rightarrow> nat \<Rightarrow> bool" where
  "block_valid m i = list_ex (\<lambda>j. m ! (i - MEM_OFFSET + j) \<noteq> 0xff) [0 ..< MEM_PROG_BLOCK_SIZE]"

text \<open>
  The body of \<^verbatim>\<open>if(valid)\<close>: the program transfer for the block at \<open>i\<close>, the
  status poll and the two checks of \<^verbatim>\<open>result\<close>.
\<close>

definition program_block :: "device \<Rightarrow> HRM_Data \<Rightarrow> world \<Rightarrow> nat \<Rightarrow> int \<times> HRM_Data \<times> world" where
  "program_block dev hrm w i =
     (let (r1, w1) = usb_control_msg dev 0x40 0x81 i (i + MEM_PROG_BLOCK_SIZE - 1)
                       (take MEM_PROG_BLOCK_SIZE (drop (i - MEM_OFFSET) (mem hrm)))
                       MEM_PROG_BLOCK_SIZE w;
          result = (word_of_int (fst r1) :: byte)
      in if result \<noteq> 0x40 then (HRM_ERROR, hrm\<lparr>last_errorcode := HRM_FLASH_PROGRAM_ERROR\<rparr>, w1)
         else
           let w2 = emit (Sleep WAIT_PROGRAMMING) w1;
               (r2, w3) = usb_control_msg dev 0xC0 0x8F 0 0 [] 1 w2;
               result = (word_of_int (fst r2) :: byte);
               status = snd r2
           in if result \<noteq> 1 \<or> result \<noteq> 1
              then (HRM_ERROR, hrm\<lparr>last_errorcode := HRM_FLASH_PROGRAM_ERROR\<rparr>, w3)
              else (HRM_OK, hrm, emit (Sleep WAIT_STATUS) w3))"

function program_loop :: "device \<Rightarrow> nat \<Rightarrow> HRM_Data \<Rightarrow> world \<Rightarrow> int \<times> HRM_Data \<times> world" where
  "program_loop dev i hrm w =
     (if i < MEM_OFFSET + MEM_SIZE then
        (if block_valid (mem hrm) i then
           (case program_block dev hrm w i of
              (r, hrm', w') \<Rightarrow>
                if r = HRM_ERROR then (HRM_ERROR, hrm', w')
                else program_loop dev (i + MEM_PROG_BLOCK_SIZE) hrm' w')
         else program_loop dev (i + MEM_PROG_BLOCK_SIZE) hrm w)
      else (HRM_OK, hrm, w))"
  by pat_completeness auto
termination
  by (relation "measure (\<lambda>(dev, i, hrm, w). MEM_OFFSET + MEM_SIZE - i)") auto

declare program_loop.simps [simp del]

definition HRM_ICP_ProgramFlash :: "device \<Rightarrow> HRM_Data \<Rightarrow> world \<Rightarrow> int \<times> HRM_Data \<times> world" where
  "HRM_ICP_ProgramFlash dev hrm w = program_loop dev MEM_OFFSET (hrm\<lparr>last_errorcode := 0\<rparr>) w"

subsection \<open>Opening and closing the device\<close>

text \<open>
  The surroundings of a run: the two keys when at least three arguments are given,
  what the bus scan finds for the HID identity, what the \<open>k\<close>-th scan for the ICP
  identity finds and what \<^verbatim>\<open>usb_set_configuration\<close> then returns, the firmware
  file, the indeterminate initial contents of the locals \<^verbatim>\<open>hrm\<close>, \<^verbatim>\<open>line\<close> and
  \<^verbatim>\<open>tmp\<close>, and the device in ICP mode.
\<close>

record env =
  argv_keys :: "(nat \<times> nat) option"
  hid_open :: bool
  hid_config :: int
  hid_tmp :: "byte list"
  icp_open :: "nat \<Rightarrow> bool"
  icp_config :: "nat \<Rightarrow> int"
  s19_file :: "string option"
  hrm0 :: HRM_Data
  line0 :: string
  icp_device :: device

definition HRM_ICP_InitUSB :: "env \<Rightarrow> HRM_Data \<Rightarrow> world \<Rightarrow> int \<times> HRM_Data \<times> world" where
  "HRM_ICP_InitUSB e hrm w =
     (let k = opens w;
          hrm1 = hrm\<lparr>last_errorcode := 0, usb_dev := icp_open e k\<rparr>;
          w1 = (emit (UsbOpen ICP_VID ICP_PID (icp_open e k)) w)\<lparr>opens := Suc k\<rparr>
      in if \<not> usb_dev hrm1 then (HRM_ERROR, hrm1\<lparr>last_errorcode := HRM_USB_OPEN_ERROR\<rparr>, w1)
         else
           let w2 = emit (UsbSetConfiguration (icp_config e k)) w1
           in if icp_config e k < 0
              then (HRM_ERROR, hrm1\<lparr>last_errorcode := HRM_USB_CONFIG_ERROR\<rparr>, emit UsbClose w2)
              else (HRM_OK, hrm1, w2))"

definition HRM_ICP_CloseUSB :: "HRM_Data \<Rightarrow> world \<Rightarrow> world" where
  "HRM_ICP_CloseUSB hrm w = emit UsbClose w"

definition HRM_ClearICPFlag :: "env \<Rightarrow> nat \<Rightarrow> nat \<Rightarrow> nat \<Rightarrow> nat \<Rightarrow> world \<Rightarrow> int \<times> world" where
  "HRM_ClearICPFlag e vid pid key1 key2 w =
     (let w1 = emit (UsbOpen vid pid (hid_open e)) w
      in if \<not> hid_open e then (HRM_ERROR, w1)
         else
           let w2 = emit (UsbSetConfiguration (hid_config e)) w1
           in if hid_config e < 0 then (HRM_ERROR, emit UsbClose w2)
              else (0, emit UsbClose
                         (emit (UsbControlMsg 0x21 0x09 key1 key2 (hid_tmp e) 8)
                            (emit UsbResetEp (emit UsbClearHalt w2)))))"

subsection \<open>\<^verbatim>\<open>main\<close>\<close>

text \<open>\<^verbatim>\<open>HRM_CheckError\<close>: the exit status with which it ends the process, if it does.\<close>

definition HRM_CheckError :: "HRM_Data \<Rightarrow> int option" where
  "HRM_CheckError hrm = (if 0 < last_errorcode hrm then Some (int (last_errorcode hrm)) else None)"

text \<open>The loop that waits for the device: \<open>i\<close> counts down from 30.\<close>

fun init_loop :: "env \<Rightarrow> nat \<Rightarrow> HRM_Data \<Rightarrow> world \<Rightarrow> HRM_Data \<times> world" where
  "init_loop e 0 hrm w = (hrm, w)"
| "init_loop e (Suc i) hrm w =
     (case HRM_ICP_InitUSB e hrm w of
        (r, hrm', w') \<Rightarrow>
          if r = HRM_OK then (hrm', w') else init_loop e i hrm' (emit (Sleep 1000) w'))"

text \<open>The block of \<^verbatim>\<open>main\<close> that overwrites the stored flag when the two flags differ.\<close>

definition fix_icp_flag :: "HRM_Data \<Rightarrow> HRM_Data" where
  "fix_icp_flag hrm =
     (if icp_flag hrm \<noteq> icp_flag_calculated hrm then
        hrm\<lparr>mem := (mem hrm)
               [ICP_FLAG_ADDRESS - MEM_OFFSET := ucast (drop_bit 8 (icp_flag_calculated hrm)),
                ICP_FLAG_ADDRESS - MEM_OFFSET + 1 := ucast (icp_flag_calculated hrm AND 0xff)]\<rparr>
      else hrm)"

text \<open>The part of \<^verbatim>\<open>main\<close> from the call of \<^verbatim>\<open>HRM_ICP_ReadS19\<close> on.\<close>

definition flash_file :: "env \<Rightarrow> HRM_Data \<Rightarrow> world \<Rightarrow> event list" where
  "flash_file e hrm w =
     (case HRM_ICP_ReadS19 (line0 e) (s19_file e) hrm of
        Inl f \<Rightarrow> trace w @ [Undefined_Behaviour f]
      | Inr (r, hrm1) \<Rightarrow>
     (case HRM_CheckError hrm1 of
        Some code \<Rightarrow> trace w @ [Exit code]
      | None \<Rightarrow>
     (case HRM_ICP_EraseFlash (icp_device e) (fix_icp_flag hrm1) w of
        (r, hrm2, w2) \<Rightarrow>
     (case HRM_CheckError hrm2 of
        Some code \<Rightarrow> trace w2 @ [Exit code]
      | None \<Rightarrow>
     (case HRM_ICP_ProgramFlash (icp_device e) hrm2 w2 of
        (r, hrm3, w3) \<Rightarrow>
     (case HRM_CheckError hrm3 of
        Some code \<Rightarrow> trace w3 @ [Exit code]
      | None \<Rightarrow> trace (HRM_ICP_CloseUSB hrm3 w3) @ [Exit 0]))))))"

definition main :: "env \<Rightarrow> event list" where
  "main e =
     (let w0 = \<lparr>trace = [], msgs = 0, opens = 0\<rparr>;
          (r, w1) = (case argv_keys e of
                       None \<Rightarrow> (0, w0)
                     | Some (key1, key2) \<Rightarrow> HRM_ClearICPFlag e HID_VID HID_PID key1 key2 w0)
      in if r = HRM_ERROR then trace w1 @ [Exit HRM_ERROR]
         else
           (case init_loop e 30 (hrm0 e) w1 of
              (hrm1, w2) \<Rightarrow>
                (case HRM_CheckError hrm1 of
                   Some code \<Rightarrow> trace w2 @ [Exit code]
                 | None \<Rightarrow> flash_file e hrm1 w2)))"

section \<open>Notions used in the statements\<close>

text \<open>
  The events of one erase-block operation on the block at \<open>a\<close>, and the blocks that
  the two phases visit.
\<close>

definition erase_events :: "nat \<Rightarrow> event list" where
  "erase_events a =
     [UsbControlMsg 0x40 0x82 a (a + 511) [] 0, Sleep 5, UsbControlMsg 0xC0 0x8F 0 0 [] 1, Sleep 5]"

definition erase_blocks :: "nat list" where
  "erase_blocks = map (\<lambda>k. MEM_OFFSET + MEM_BLOCK_SIZE * k) [0 ..< 14]"

definition prog_blocks :: "nat list" where
  "prog_blocks = map (\<lambda>k. MEM_OFFSET + MEM_PROG_BLOCK_SIZE * k) [0 ..< 112]"

text \<open>
  The bytes of the 64-byte block at address \<open>a\<close> in the image \<open>m\<close>; the block is
  blank when all of them are 0xff.
\<close>

definition block_bytes :: "byte list \<Rightarrow> nat \<Rightarrow> byte list" where
  "block_bytes m a = take MEM_PROG_BLOCK_SIZE (drop (a - MEM_OFFSET) m)"

definition blank :: "byte list \<Rightarrow> nat \<Rightarrow> bool" where
  "blank m a = list_all (\<lambda>b. b = 0xff) (block_bytes m a)"

text \<open>The program transfer for the block at \<open>a\<close> of the image \<open>m\<close>.\<close>

definition prog_msg :: "byte list \<Rightarrow> nat \<Rightarrow> event" where
  "prog_msg m a = UsbControlMsg 0x40 0x81 a (a + 63) (block_bytes m a) 64"

text \<open>
  The \<open>n\<close>-th control transfer of the run, a status poll, reports success: one byte
  was transferred (as far as \<^verbatim>\<open>unsigned char result\<close> can tell) and it is 1.
\<close>

definition status_ok :: "device \<Rightarrow> nat \<Rightarrow> bool" where
  "status_ok dev n = (snd (dev n) = 1 \<and> (word_of_int (fst (dev n)) :: byte) = 1)"

fun is_erase_transfer :: "event \<Rightarrow> bool" where
  "is_erase_transfer (UsbControlMsg rt rq v i bs sz) = (rt = 0x40 \<and> rq = 0x82)"
| "is_erase_transfer _ = False"

fun is_program_transfer :: "event \<Rightarrow> bool" where
  "is_program_transfer (UsbControlMsg rt rq v i bs sz) = (rt = 0x40 \<and> rq = 0x81)"
| "is_program_transfer _ = False"

text \<open>The block addresses that the loop of \<^verbatim>\<open>HRM_ICP_ProgramFlash\<close> visits from \<open>i\<close> on.\<close>

function blocks_from :: "nat \<Rightarrow> nat list" where
  "blocks_from i =
     (if i < MEM_OFFSET + MEM_SIZE then i # blocks_from (i + MEM_PROG_BLOCK_SIZE) else [])"
  by pat_completeness auto
termination
  by (relation "measure (\<lambda>i. MEM_OFFSET + MEM_SIZE - i)") auto

declare blocks_from.simps [simp del]

text \<open>
  The text of an S1 record: the type, the byte count (payload length plus 3) as two
  hex digits, the address as four, each payload byte as two, the trailing checksum
  byte as two, and a newline. A record is its address, its payload and the checksum
  byte written in the file, which need not be the right one. The digits may be of
  either case: \<open>hex_text n s v\<close> says that \<open>s\<close> writes \<open>v\<close> with \<open>n\<close> hex digits. A
  spelling gives the digits of the four parts of a line, \<open>text_of\<close> is the line with
  that spelling, \<open>spells\<close> says that the spelling is one of the record, and
  \<open>file_text\<close> is the file made of such lines.
\<close>

definition hex_digit :: "char \<Rightarrow> nat option" where
  "hex_digit c = map_of
     [(CHR ''0'', 0), (CHR ''1'', 1), (CHR ''2'', 2), (CHR ''3'', 3), (CHR ''4'', 4),
      (CHR ''5'', 5), (CHR ''6'', 6), (CHR ''7'', 7), (CHR ''8'', 8), (CHR ''9'', 9),
      (CHR ''A'', 10), (CHR ''B'', 11), (CHR ''C'', 12), (CHR ''D'', 13), (CHR ''E'', 14),
      (CHR ''F'', 15), (CHR ''a'', 10), (CHR ''b'', 11), (CHR ''c'', 12), (CHR ''d'', 13),
      (CHR ''e'', 14), (CHR ''f'', 15)] c"

fun hex_value :: "nat \<Rightarrow> string \<Rightarrow> nat option" where
  "hex_value acc [] = Some acc"
| "hex_value acc (c # cs) =
     (case hex_digit c of None \<Rightarrow> None | Some d \<Rightarrow> hex_value (16 * acc + d) cs)"

definition hex_text :: "nat \<Rightarrow> string \<Rightarrow> nat \<Rightarrow> bool" where
  "hex_text n s v = (length s = n \<and> hex_value 0 s = Some v)"

type_synonym s1_record = "nat \<times> byte list \<times> byte"

type_synonym s1_spelling = "string \<times> string \<times> string list \<times> string"

definition text_of :: "s1_spelling \<Rightarrow> string" where
  "text_of sp = (case sp of (cnt, ad, ps, c) \<Rightarrow> ''S1'' @ cnt @ ad @ concat ps @ c @ [CHR 0x0A])"

definition spells :: "s1_spelling \<Rightarrow> s1_record \<Rightarrow> bool" where
  "spells sp r =
     (case sp of (cnt, ad, ps, c) \<Rightarrow> case r of (a, bs, cc) \<Rightarrow>
        hex_text 2 cnt (length bs + 3) \<and> hex_text 4 ad a
        \<and> list_all2 (\<lambda>p b. hex_text 2 p (unat b)) ps bs \<and> hex_text 2 c (unat cc))"

definition file_text :: "s1_spelling list \<Rightarrow> string" where
  "file_text sps = concat (map text_of sps)"

text \<open>
  The spelling in upper-case digits, and the line and the file written that way.
\<close>

definition hex_char :: "nat \<Rightarrow> char" where
  "hex_char d = ''0123456789ABCDEF'' ! d"

definition hex2 :: "nat \<Rightarrow> string" where
  "hex2 n = [hex_char (n div 16 mod 16), hex_char (n mod 16)]"

definition hex4 :: "nat \<Rightarrow> string" where
  "hex4 n = hex2 (n div 256) @ hex2 (n mod 256)"

definition upper :: "s1_record \<Rightarrow> s1_spelling" where
  "upper r = (case r of (a, bs, cc) \<Rightarrow>
     (hex2 (length bs + 3), hex4 a, map (\<lambda>b. hex2 (unat b)) bs, hex2 (unat cc)))"

definition s1_text :: "s1_record \<Rightarrow> string" where
  "s1_text r = text_of (upper r)"

definition s19_text :: "s1_record list \<Rightarrow> string" where
  "s19_text rs = file_text (map upper rs)"

text \<open>
  \<open>store_bytes m k bs\<close> stores the bytes \<open>bs\<close> from index \<open>k\<close> on, one after the other;
  \<open>put_record\<close> is what a record is meant to do to the image: its payload replaces
  the bytes from index \<open>address - MEM_OFFSET\<close> on when the address is in the window,
  and nothing changes otherwise.
\<close>

fun store_bytes :: "byte list \<Rightarrow> nat \<Rightarrow> byte list \<Rightarrow> byte list" where
  "store_bytes m k [] = m"
| "store_bytes m k (b # bs) = store_bytes (m[k := b]) (Suc k) bs"

definition in_window :: "nat \<Rightarrow> bool" where
  "in_window a = (MEM_OFFSET \<le> a \<and> a < MEM_OFFSET + MEM_SIZE)"

definition put_record :: "s1_record \<Rightarrow> byte list \<Rightarrow> byte list" where
  "put_record r m =
     (case r of (a, bs, cc) \<Rightarrow>
        if in_window a
        then take (a - MEM_OFFSET) m @ bs @ drop (a - MEM_OFFSET + length bs) m
        else m)"

text \<open>
  A well-formed record: a 16-bit address, a payload of at most 250 bytes, so that the
  line with its newline fits the line buffer, and, when the address is in the window,
  a payload that ends in the window.
\<close>

definition wf_record :: "s1_record \<Rightarrow> bool" where
  "wf_record r =
     (case r of (a, bs, cc) \<Rightarrow>
        a < 0x10000 \<and> length bs \<le> 250
        \<and> (in_window a \<longrightarrow> a + length bs \<le> MEM_OFFSET + MEM_SIZE))"

text \<open>
  The address and the payload of a record; the record covers the index \<open>j\<close> of the
  image when one of its payload bytes belongs there; a data record in the window
  has all its payload addresses in [0xDC00, 0xF800) and at most 250 payload bytes.
\<close>

definition covers :: "s1_record \<Rightarrow> nat \<Rightarrow> bool" where
  "covers r j = (case r of (a, bs, cc) \<Rightarrow> a - MEM_OFFSET \<le> j \<and> j < a - MEM_OFFSET + length bs)"

definition data_record :: "s1_record \<Rightarrow> bool" where
  "data_record r =
     (case r of (a, bs, cc) \<Rightarrow>
        MEM_OFFSET \<le> a \<and> a + length bs \<le> MEM_OFFSET + MEM_SIZE \<and> length bs \<le> 250)"

definition addr :: "s1_record \<Rightarrow> nat" where "addr r = fst r"
definition payload :: "s1_record \<Rightarrow> byte list" where "payload r = fst (snd r)"

text \<open>A record without its checksum byte.\<close>

definition record_data :: "s1_record \<Rightarrow> nat \<times> byte list" where
  "record_data r = (fst r, fst (snd r))"

text \<open>
  A firmware file whose three records fill the checksum window 0xF600 .. 0xF7FD with
  the byte 0 (each record with its right checksum byte).
\<close>

definition zero_window_records :: "s1_record list" where
  "zero_window_records =
     [(0xF600, replicate 170 0, 0x5C), (0xF6AA, replicate 170 0, 0xB2), (0xF754, replicate 170 0, 0x07)]"

definition zero_window_file :: string where
  "zero_window_file = s19_text zero_window_records"

text \<open>
  A run used as an example: no keys, the device found at once, a given file and
  device; \<open>example_line\<close> stands for what the line buffer holds at first.
\<close>

definition example_line :: string where
  "example_line = replicate MAX_LINE_LEN (CHR ''#'')"

definition example_hrm :: HRM_Data where
  "example_hrm = \<lparr>icp_flag_calculated = 0, icp_flag = 0, usb_dev = True, mem = [], last_errorcode = 0\<rparr>"

definition example_env :: "string option \<Rightarrow> device \<Rightarrow> env" where
  "example_env file dev =
     \<lparr>argv_keys = None, hid_open = False, hid_config = 0, hid_tmp = [],
      icp_open = (\<lambda>k. True), icp_config = (\<lambda>k. 0), s19_file = file,
      hrm0 = example_hrm, line0 = example_line, icp_device = dev\<rparr>"

definition world0 :: world where
  "world0 = \<lparr>trace = [], msgs = 0, opens = 0\<rparr>"

section \<open>Properties\<close>

subsection \<open>Unfolding the loops on numerals\<close>

lemma fgets_take_numeral [simp]:
  "fgets_take (numeral k) [] = []"
  "fgets_take (numeral k) (c # cs) =
     (if c = CHR 0x0A then [c] else c # fgets_take (pred_numeral k) cs)"
  by (simp_all add: numeral_eq_Suc)

lemma strncpy_from_numeral [simp]:
  "strncpy_from line off (numeral k) =
     (if length line \<le> off then Inl LineOverrun
      else if line ! off = NUL then Inr []
      else (case strncpy_from line (Suc off) (pred_numeral k) of
              Inl f \<Rightarrow> Inl f
            | Inr s \<Rightarrow> Inr (line ! off # s)))"
  by (simp add: numeral_eq_Suc)

lemma data_loop_numeral [simp]:
  "data_loop line address (numeral k) i m calc_crc =
     (case strncpy_from line (8 + 2 * i) 2 of
        Inl f \<Rightarrow> Inl f
      | Inr sdata_str \<Rightarrow>
          let sdata = (word_of_int (strtoul16 sdata_str) :: byte);
              idx = nat (address - int MEM_OFFSET) + i
          in if MEM_SIZE \<le> idx then Inl MemOverrun
             else data_loop line address (pred_numeral k) (Suc i) (m[idx := sdata])
                    (calc_crc + sdata))"
  by (simp add: numeral_eq_Suc)

lemma init_loop_30:
  "init_loop e 30 hrm w =
     (case HRM_ICP_InitUSB e hrm w of
        (r, hrm', w') \<Rightarrow>
          if r = HRM_OK then (hrm', w') else init_loop e 29 hrm' (emit (Sleep 1000) w'))"
  using init_loop.simps(2) [of e 29 hrm w] by simp

lemmas parse_eval =
  read_lines.simps fgets_def store_line_def s1_line_def strtoul16_def isspace_def xdigit_def
  Let_def

subsection \<open>The checksum of an image\<close>

lemma fold_add_zero:
  "(\<And>i. i \<in> set xs \<Longrightarrow> f i = 0) \<Longrightarrow> fold (\<lambda>i acc. acc + f i) xs (a :: 32 word) = a"
  by (induction xs arbitrary: a) auto

subsection \<open>The erase phase\<close>

lemma erase_block:
  "usb_dev h \<Longrightarrow>
   HRM_ICP_EraseFlashBlock dev h w a =
     (if status_ok dev (Suc (msgs w)) then HRM_OK else HRM_ERROR,
      h\<lparr>last_errorcode := (if status_ok dev (Suc (msgs w)) then 0 else HRM_FLASH_ERASE_ERROR)\<rparr>,
      w\<lparr>trace := trace w @ erase_events a, msgs := msgs w + 2\<rparr>)"
  by (simp add: HRM_ICP_EraseFlashBlock_def usb_control_msg_def emit_def status_ok_def erase_events_def)

lemma erase_block_result:
  "usb_dev h \<Longrightarrow> fst (HRM_ICP_EraseFlashBlock dev h w a) = HRM_OK \<longleftrightarrow> status_ok dev (Suc (msgs w))"
  by (simp add: erase_block)

lemma drop_erase_blocks:
  "j < 14 \<Longrightarrow> drop j erase_blocks = (MEM_OFFSET + MEM_BLOCK_SIZE * j) # drop (Suc j) erase_blocks"
  by (simp add: erase_blocks_def Cons_nth_drop_Suc [symmetric] del: upt_rec_numeral upt.simps)

lemma erase_loop_step:
  assumes "j < 14" "usb_dev h" "status_ok dev (Suc (msgs w))"
  shows "erase_loop dev (MEM_OFFSET + MEM_BLOCK_SIZE * j) h w
      = erase_loop dev (MEM_OFFSET + MEM_BLOCK_SIZE * Suc j) (h\<lparr>last_errorcode := 0\<rparr>)
          (w\<lparr>trace := trace w @ erase_events (MEM_OFFSET + MEM_BLOCK_SIZE * j), msgs := msgs w + 2\<rparr>)"
  using assms
  by (subst erase_loop.simps) (simp add: erase_block add.commute add.left_commute)

lemma erase_loop_ok:
  "n = 14 - j \<Longrightarrow> j \<le> 14 \<Longrightarrow> usb_dev h \<Longrightarrow> last_errorcode h = 0 \<Longrightarrow>
   (\<And>k. k < 14 - j \<Longrightarrow> status_ok dev (msgs w + 2 * k + 1)) \<Longrightarrow>
   erase_loop dev (MEM_OFFSET + MEM_BLOCK_SIZE * j) h w =
     (HRM_OK, h, w\<lparr>trace := trace w @ concat (map erase_events (drop j erase_blocks)),
                     msgs := msgs w + 2 * (14 - j)\<rparr>)"
proof (induction n arbitrary: j w)
  case 0
  then have "j = 14" by simp
  then show ?case by (simp add: erase_loop.simps erase_blocks_def)
next
  case (Suc n)
  then have j: "j < 14" by simp
  let ?w = "w\<lparr>trace := trace w @ erase_events (MEM_OFFSET + MEM_BLOCK_SIZE * j), msgs := msgs w + 2\<rparr>"
  have ok0: "status_ok dev (Suc (msgs w))" using Suc.prems(5) [of 0] j by simp
  have h: "h\<lparr>last_errorcode := 0\<rparr> = h" using Suc.prems(4) by simp
  have "erase_loop dev (MEM_OFFSET + MEM_BLOCK_SIZE * j) h w
      = erase_loop dev (MEM_OFFSET + MEM_BLOCK_SIZE * Suc j) h ?w"
    using erase_loop_step [OF j Suc.prems(3) ok0] h by simp
  also have "\<dots> = (HRM_OK, h, ?w\<lparr>trace := trace ?w @ concat (map erase_events (drop (Suc j) erase_blocks)),
                     msgs := msgs ?w + 2 * (14 - Suc j)\<rparr>)"
  proof (rule Suc.IH)
    show "n = 14 - Suc j" using Suc.prems(1) by simp
    show "Suc j \<le> 14" using j by simp
    show "usb_dev h" by fact
    show "last_errorcode h = 0" by fact
    fix k assume "k < 14 - Suc j"
    then have "Suc k < 14 - j" by simp
    from Suc.prems(5) [OF this] show "status_ok dev (msgs ?w + 2 * k + 1)" by simp
  qed
  also have "\<dots> = (HRM_OK, h, w\<lparr>trace := trace w @ concat (map erase_events (drop j erase_blocks)),
                     msgs := msgs w + 2 * (14 - j)\<rparr>)"
    using j by (simp add: drop_erase_blocks [OF j])
  finally show ?case .
qed

lemma erase_loop_bad:
  "n = b - j \<Longrightarrow> j \<le> b \<Longrightarrow> b < 14 \<Longrightarrow> usb_dev h \<Longrightarrow>
   (\<And>k. k < b - j \<Longrightarrow> status_ok dev (msgs w + 2 * k + 1)) \<Longrightarrow>
   \<not> status_ok dev (msgs w + 2 * (b - j) + 1) \<Longrightarrow>
   erase_loop dev (MEM_OFFSET + MEM_BLOCK_SIZE * j) h w =
     (HRM_ERROR, h\<lparr>last_errorcode := HRM_FLASH_ERASE_ERROR\<rparr>,
      w\<lparr>trace := trace w @ concat (map erase_events (take (Suc b - j) (drop j erase_blocks))),
        msgs := msgs w + 2 * (Suc b - j)\<rparr>)"
proof (induction n arbitrary: j w h)
  case 0
  then have jb: "j = b" and b: "b < 14" by simp_all
  have bad: "\<not> status_ok dev (Suc (msgs w))" using "0.prems"(6) jb by simp
  have "erase_loop dev (MEM_OFFSET + MEM_BLOCK_SIZE * b) h w =
     (HRM_ERROR, h\<lparr>last_errorcode := HRM_FLASH_ERASE_ERROR\<rparr>,
      w\<lparr>trace := trace w @ erase_events (MEM_OFFSET + MEM_BLOCK_SIZE * b), msgs := msgs w + 2\<rparr>)"
    using b bad "0.prems"(4) by (subst erase_loop.simps) (simp add: erase_block)
  then show ?case unfolding jb by (simp add: drop_erase_blocks [OF b])
next
  case (Suc n)
  then have jb: "j < b" and j: "j < 14" by simp_all
  let ?w = "w\<lparr>trace := trace w @ erase_events (MEM_OFFSET + MEM_BLOCK_SIZE * j), msgs := msgs w + 2\<rparr>"
  let ?h = "h\<lparr>last_errorcode := 0\<rparr>"
  have ok0: "status_ok dev (Suc (msgs w))" using Suc.prems(5) [of 0] jb by simp
  have "erase_loop dev (MEM_OFFSET + MEM_BLOCK_SIZE * j) h w
      = erase_loop dev (MEM_OFFSET + MEM_BLOCK_SIZE * Suc j) ?h ?w"
    by (rule erase_loop_step [OF j Suc.prems(4) ok0])
  also have "\<dots> = (HRM_ERROR, ?h\<lparr>last_errorcode := HRM_FLASH_ERASE_ERROR\<rparr>,
      ?w\<lparr>trace := trace ?w @ concat (map erase_events (take (Suc b - Suc j) (drop (Suc j) erase_blocks))),
        msgs := msgs ?w + 2 * (Suc b - Suc j)\<rparr>)"
  proof (rule Suc.IH)
    show "n = b - Suc j" using Suc.prems(1) by simp
    show "Suc j \<le> b" using jb by simp
    show "b < 14" by fact
    show "usb_dev ?h" using Suc.prems(4) by simp
    show "status_ok dev (msgs ?w + 2 * k + 1)" if "k < b - Suc j" for k
    proof -
      from that have "Suc k < b - j" by simp
      from Suc.prems(5) [OF this] show ?thesis by simp
    qed
    have eq: "msgs ?w + 2 * (b - Suc j) + 1 = msgs w + 2 * (b - j) + 1" using jb by simp
    show "\<not> status_ok dev (msgs ?w + 2 * (b - Suc j) + 1)"
      unfolding eq by (rule Suc.prems(6))
  qed
  also have "\<dots> = (HRM_ERROR, h\<lparr>last_errorcode := HRM_FLASH_ERASE_ERROR\<rparr>,
      w\<lparr>trace := trace w @ concat (map erase_events (take (Suc b - j) (drop j erase_blocks))),
        msgs := msgs w + 2 * (Suc b - j)\<rparr>)"
  proof -
    have "Suc b - j = Suc (b - j)" using jb by simp
    then show ?thesis by (simp add: drop_erase_blocks [OF j])
  qed
  finally show ?case .
qed

subsection \<open>The program phase\<close>

lemma program_block_events:
  "program_block dev h w i = (r, h', w') \<Longrightarrow>
   \<exists>evs. trace w' = trace w @ prog_msg (mem h) i # evs
        \<and> filter is_program_transfer evs = [] \<and> filter is_erase_transfer evs = []
        \<and> mem h' = mem h"
  by (auto simp: program_block_def usb_control_msg_def emit_def prog_msg_def Let_def
           block_bytes_def split: if_splits)

lemma program_block_result:
  "fst (program_block dev h w i) = HRM_OK \<longleftrightarrow>
     (word_of_int (fst (dev (msgs w))) :: byte) = 0x40
     \<and> (word_of_int (fst (dev (Suc (msgs w)))) :: byte) = 1"
  by (simp add: program_block_def usb_control_msg_def emit_def Let_def split: prod.splits)

lemma program_loop_inv:
  "program_loop dev i h w = (r, h', w') \<Longrightarrow>
   \<exists>evs n. trace w' = trace w @ evs \<and> filter is_erase_transfer evs = [] \<and> mem h' = mem h
     \<and> filter is_program_transfer evs
         = map (prog_msg (mem h)) (take n (filter (block_valid (mem h)) (blocks_from i)))
     \<and> (filter (block_valid (mem h)) (blocks_from i) \<noteq> [] \<longrightarrow> 0 < n)
     \<and> (r = HRM_OK \<longrightarrow> length (filter (block_valid (mem h)) (blocks_from i)) \<le> n)"
proof (induction dev i h w arbitrary: r h' w' rule: program_loop.induct)
  case (1 dev i h w)
  let ?V = "\<lambda>i. filter (block_valid (mem h)) (blocks_from i)"
  show ?case
  proof (cases "i < MEM_OFFSET + MEM_SIZE")
    case False
    then have "program_loop dev i h w = (HRM_OK, h, w)" by (simp add: program_loop.simps)
    with "1.prems" have "w' = w" "h' = h" by simp_all
    moreover have "blocks_from i = []" using False by (simp add: blocks_from.simps)
    ultimately show ?thesis by simp
  next
    case True
    then have bl: "blocks_from i = i # blocks_from (i + MEM_PROG_BLOCK_SIZE)"
      by (subst blocks_from.simps) simp
    show ?thesis
    proof (cases "block_valid (mem h) i")
      case False
      with True "1.prems" have "program_loop dev (i + MEM_PROG_BLOCK_SIZE) h w = (r, h', w')"
        by (subst (asm) program_loop.simps) simp
      from "1.IH"(2) [OF True False this] False bl show ?thesis by simp
    next
      case valid: True
      obtain r1 h1 w1 where pb: "program_block dev h w i = (r1, h1, w1)"
        by (cases "program_block dev h w i") auto
      from program_block_events [OF pb] obtain evs1 where
        e1: "trace w1 = trace w @ prog_msg (mem h) i # evs1"
          "filter is_program_transfer evs1 = []" "filter is_erase_transfer evs1 = []"
          "mem h1 = mem h" by auto
      have V: "?V i = i # ?V (i + MEM_PROG_BLOCK_SIZE)" using bl valid by simp
      have pm: "is_program_transfer (prog_msg (mem h) i)" "\<not> is_erase_transfer (prog_msg (mem h) i)"
        by (simp_all add: prog_msg_def)
      show ?thesis
      proof (cases "r1 = HRM_ERROR")
        case True
        with \<open>i < _\<close> valid pb "1.prems" have res: "r = HRM_ERROR" "h' = h1" "w' = w1"
          by (subst (asm) program_loop.simps; simp)+
        have "filter is_program_transfer (prog_msg (mem h) i # evs1)
               = map (prog_msg (mem h)) (take 1 (?V i))"
          using e1 pm V by simp
        with e1 pm res show ?thesis
          by (intro exI [of _ "prog_msg (mem h) i # evs1"] exI [of _ 1]) simp
      next
        case False
        with \<open>i < _\<close> valid pb "1.prems"
        have rec: "program_loop dev (i + MEM_PROG_BLOCK_SIZE) h1 w1 = (r, h', w')"
          by (subst (asm) program_loop.simps) simp
        from "1.IH"(1) [OF \<open>i < _\<close> valid pb [symmetric] refl False rec]
        obtain evs2 n where
          e2: "trace w' = trace w1 @ evs2" "filter is_erase_transfer evs2 = []" "mem h' = mem h1"
            "filter is_program_transfer evs2
               = map (prog_msg (mem h1)) (take n (filter (block_valid (mem h1)) (blocks_from (i + MEM_PROG_BLOCK_SIZE))))"
            "r = HRM_OK \<longrightarrow> length (filter (block_valid (mem h1)) (blocks_from (i + MEM_PROG_BLOCK_SIZE))) \<le> n"
          by auto
        show ?thesis
          using e1 e2 pm V
          by (intro exI [of _ "prog_msg (mem h) i # evs1 @ evs2"] exI [of _ "Suc n"]) simp
      qed
    qed
  qed
qed


lemma blocks_from_upt:
  "n = 112 - j \<Longrightarrow> j \<le> 112 \<Longrightarrow>
   blocks_from (MEM_OFFSET + MEM_PROG_BLOCK_SIZE * j)
     = map (\<lambda>k. MEM_OFFSET + MEM_PROG_BLOCK_SIZE * k) [j ..< 112]"
proof (induction n arbitrary: j)
  case 0
  then have "j = 112" by simp
  then show ?case by (subst blocks_from.simps) simp
next
  case (Suc n)
  then have j: "j < 112" by simp
  have "blocks_from (MEM_OFFSET + MEM_PROG_BLOCK_SIZE * j)
      = (MEM_OFFSET + MEM_PROG_BLOCK_SIZE * j) # blocks_from (MEM_OFFSET + MEM_PROG_BLOCK_SIZE * Suc j)"
    using j by (subst blocks_from.simps) (simp add: add.commute add.left_commute)
  also have "blocks_from (MEM_OFFSET + MEM_PROG_BLOCK_SIZE * Suc j)
      = map (\<lambda>k. MEM_OFFSET + MEM_PROG_BLOCK_SIZE * k) [Suc j ..< 112]"
    using Suc.prems j by (intro Suc.IH) simp_all
  finally show ?case using j by (simp add: upt_conv_Cons del: upt_rec_numeral)
qed

lemma blocks_from_eq: "blocks_from MEM_OFFSET = prog_blocks"
  using blocks_from_upt [of 112 0] by (simp add: prog_blocks_def del: upt_rec_numeral)

lemma ReadS19_ok:
  "HRM_ICP_ReadS19 l f h = Inr (HRM_OK, h1) \<Longrightarrow> last_errorcode h1 = 0 \<and> usb_dev h1 = usb_dev h"
  by (auto simp: HRM_ICP_ReadS19_def set_icp_flags_def Let_def split: option.splits sum.splits)

lemma usb_dev_fix [simp]: "usb_dev (fix_icp_flag h) = usb_dev h"
  by (simp add: fix_icp_flag_def)

lemma last_errorcode_fix [simp]: "last_errorcode (fix_icp_flag h) = last_errorcode h"
  by (simp add: fix_icp_flag_def)


lemma usb_dev_set_icp_flags [simp]: "usb_dev (set_icp_flags h) = usb_dev h"
  by (simp add: set_icp_flags_def)

lemma last_errorcode_set_icp_flags [simp]: "last_errorcode (set_icp_flags h) = last_errorcode h"
  by (simp add: set_icp_flags_def)

lemma ReadS19_empty_file:
  "HRM_ICP_ReadS19 l (Some []) h
     = Inr (HRM_OK, set_icp_flags (h\<lparr>last_errorcode := 0, mem := replicate MEM_SIZE 0xff\<rparr>))"
  by (simp add: HRM_ICP_ReadS19_def read_lines.simps fgets_def)

lemma block_valid_iff: "block_valid m a \<longleftrightarrow> (\<exists>j<64. m ! (a - MEM_OFFSET + j) \<noteq> 0xff)"
  by (auto simp: block_valid_def list_ex_iff simp del: upt_rec_numeral)

lemma blank_iff:
  assumes "a - MEM_OFFSET + 64 \<le> length m"
  shows "blank m a \<longleftrightarrow> (\<forall>j<64. m ! (a - MEM_OFFSET + j) = 0xff)"
proof -
  have len: "length (block_bytes m a) = 64" using assms by (simp add: block_bytes_def)
  have nth: "block_bytes m a ! j = m ! (a - MEM_OFFSET + j)" if "j < 64" for j
    using that assms by (simp add: block_bytes_def)
  show ?thesis
    unfolding blank_def list_all_length len using nth by auto
qed

lemma prog_blocks_bound: "a \<in> set prog_blocks \<Longrightarrow> a - MEM_OFFSET + 64 \<le> MEM_SIZE"
  by (auto simp: prog_blocks_def simp del: upt_rec_numeral)

lemma valid_iff_not_blank:
  "length m = MEM_SIZE \<Longrightarrow> a \<in> set prog_blocks \<Longrightarrow> block_valid m a \<longleftrightarrow> \<not> blank m a"
  using prog_blocks_bound [of a] by (simp add: block_valid_iff blank_iff)

lemma filter_valid:
  "length m = MEM_SIZE \<Longrightarrow>
   filter (block_valid m) prog_blocks = filter (\<lambda>a. \<not> blank m a) prog_blocks"
  by (rule filter_cong) (simp_all add: valid_iff_not_blank)

lemma all_blank:
  assumes "length m = MEM_SIZE" "\<forall>i<MEM_SIZE. m ! i = 0xff"
  shows "filter (\<lambda>a. \<not> blank m a) prog_blocks = []"
proof -
  have "blank m a" if "a \<in> set prog_blocks" for a
  proof -
    from prog_blocks_bound [OF that] have b: "a - MEM_OFFSET + 64 \<le> length m" using assms(1) by simp
    show ?thesis unfolding blank_iff [OF b] using assms b by auto
  qed
  then show ?thesis by (simp add: filter_empty_conv)
qed

lemma filter_eq_upt: "k0 < n \<Longrightarrow> filter (\<lambda>k. k = k0) [0 ..< n] = [k0]"
proof (induction n)
  case 0 then show ?case by simp
next
  case (Suc n)
  show ?case
  proof (cases "k0 = n")
    case True
    then have "filter (\<lambda>k. k = k0) [0 ..< n] = []" by (auto simp: filter_empty_conv)
    with True show ?thesis by simp
  next
    case False
    with Suc show ?thesis by simp
  qed
qed

lemma one_nonblank:
  assumes len: "length m = MEM_SIZE" and p: "p < MEM_SIZE" "m ! p \<noteq> 0xff"
    and rest: "\<forall>q<MEM_SIZE. q \<noteq> p \<longrightarrow> m ! q = 0xff"
  shows "filter (\<lambda>a. \<not> blank m a) prog_blocks = [MEM_OFFSET + MEM_PROG_BLOCK_SIZE * (p div 64)]"
proof -
  have iff: "(\<not> blank m (MEM_OFFSET + MEM_PROG_BLOCK_SIZE * k)) \<longleftrightarrow> k = p div 64" if "k < 112" for k
  proof -
    have b: "(MEM_OFFSET + MEM_PROG_BLOCK_SIZE * k) - MEM_OFFSET + 64 \<le> length m"
      using that len by simp
    have "(\<not> blank m (MEM_OFFSET + MEM_PROG_BLOCK_SIZE * k)) \<longleftrightarrow> (\<exists>j<64. m ! (64 * k + j) \<noteq> 0xff)"
      unfolding blank_iff [OF b] by simp
    also have "\<dots> \<longleftrightarrow> (\<exists>j<64. 64 * k + j = p)"
    proof
      assume "\<exists>j<64. m ! (64 * k + j) \<noteq> 0xff"
      then obtain j where j: "j < 64" "m ! (64 * k + j) \<noteq> 0xff" by auto
      have "64 * k + j < MEM_SIZE" using that j by simp
      with rest j have "64 * k + j = p" by auto
      with j show "\<exists>j<64. 64 * k + j = p" by auto
    next
      assume "\<exists>j<64. 64 * k + j = p"
      with p show "\<exists>j<64. m ! (64 * k + j) \<noteq> 0xff" by auto
    qed
    also have "\<dots> \<longleftrightarrow> k = p div 64"
    proof
      assume "\<exists>j<64. 64 * k + j = p"
      then show "k = p div 64" by auto
    next
      assume k: "k = p div 64"
      have "64 * (p div 64) + p mod 64 = p" by simp
      with k show "\<exists>j<64. 64 * k + j = p" by (intro exI [of _ "p mod 64"]) simp
    qed
    finally show ?thesis .
  qed
  have pd: "p div 64 < 112" using p by simp
  have "filter (\<lambda>a. \<not> blank m a) prog_blocks
      = map (\<lambda>k. MEM_OFFSET + MEM_PROG_BLOCK_SIZE * k)
          (filter (\<lambda>k. \<not> blank m (MEM_OFFSET + MEM_PROG_BLOCK_SIZE * k)) [0 ..< 112])"
    by (simp add: prog_blocks_def filter_map comp_def del: upt_rec_numeral)
  also have "filter (\<lambda>k. \<not> blank m (MEM_OFFSET + MEM_PROG_BLOCK_SIZE * k)) [0 ..< 112]
      = filter (\<lambda>k. k = p div 64) [0 ..< 112]"
    by (rule filter_cong) (simp_all add: iff del: upt_rec_numeral)
  also have "\<dots> = [p div 64]" by (rule filter_eq_upt [OF pd])
  finally show ?thesis by simp
qed

lemma not_blankI:
  "a - MEM_OFFSET + 64 \<le> length m \<Longrightarrow> j < 64 \<Longrightarrow> m ! (a - MEM_OFFSET + j) \<noteq> 0xff \<Longrightarrow> \<not> blank m a"
  by (auto simp: blank_iff)

subsection \<open>Parsing the text of S1 records\<close>

lemma hex_digit_props:
  assumes "hex_digit c = Some d"
  shows "xdigit c = Some d" "c \<noteq> NUL" "c \<noteq> CHR 0x0A" "\<not> isspace c" "c \<noteq> CHR ''-''" "c \<noteq> CHR ''+''"
    "c \<noteq> CHR ''x''" "c \<noteq> CHR ''X''"
  using map_of_SomeD [OF assms [unfolded hex_digit_def]]
  by (auto simp: xdigit_def isspace_def)

lemma hex_digit_less: "hex_digit c = Some d \<Longrightarrow> d < 16"
  using map_of_SomeD [of _ c d] unfolding hex_digit_def by fastforce

lemma hex_value_digits: "hex_value acc s = Some v \<Longrightarrow> hex_digits acc s = v"
  by (induction s arbitrary: acc) (auto simp: hex_digit_props(1) split: option.splits)

lemma hex_value_all: "hex_value acc s = Some v \<Longrightarrow> c \<in> set s \<Longrightarrow> \<exists>d. hex_digit c = Some d"
  by (induction s arbitrary: acc) (auto split: option.splits)

lemma hex_value_bound: "hex_value acc s = Some v \<Longrightarrow> v < 16 ^ length s * (acc + 1)"
proof (induction s arbitrary: acc)
  case Nil
  then show ?case by simp
next
  case (Cons c cs)
  from Cons.prems obtain d where d: "hex_digit c = Some d" and v: "hex_value (16 * acc + d) cs = Some v"
    by (auto split: option.splits)
  have "v < 16 ^ length cs * (16 * acc + d + 1)" by (rule Cons.IH [OF v])
  moreover have "16 ^ length cs * (16 * acc + d + 1) \<le> 16 ^ length cs * (16 * (acc + 1))"
    using hex_digit_less [OF d] by (intro mult_le_mono2) simp
  ultimately have "v < 16 ^ length cs * (16 * (acc + 1))" by (rule less_le_trans)
  then show ?case by (simp add: algebra_simps)
qed

lemma hex_text_length: "hex_text n s v \<Longrightarrow> length s = n"
  by (simp add: hex_text_def)

lemma hex_text_NUL: "hex_text n s v \<Longrightarrow> NUL \<notin> set s"
  using hex_value_all hex_digit_props(2) unfolding hex_text_def by blast

lemma hex_text_newline: "hex_text n s v \<Longrightarrow> CHR 0x0A \<notin> set s"
  using hex_value_all hex_digit_props(3) unfolding hex_text_def by blast

lemma hex_text_bound4: "hex_text 4 s v \<Longrightarrow> v < 65536"
  using hex_value_bound [of 0 s v] by (simp add: hex_text_def)

lemma strtoul16_hex_value:
  assumes "hex_value 0 s = Some v"
  shows "strtoul16 s = int v"
proof -
  have dg: "hex_digits 0 s = v" by (rule hex_value_digits [OF assms])
  show ?thesis
  proof (cases s)
    case Nil
    with assms show ?thesis by (simp add: strtoul16_def)
  next
    case (Cons c cs)
    from hex_value_all [OF assms, of c] Cons obtain d where c: "hex_digit c = Some d" by auto
    have dw: "dropWhile isspace s = s" using Cons hex_digit_props(4) [OF c] by simp
    show ?thesis
    proof (cases cs)
      case Nil
      with Cons dw hex_digit_props [OF c] dg show ?thesis by (simp add: strtoul16_def)
    next
      case (Cons x xs)
      from hex_value_all [OF assms, of x] Cons \<open>s = c # cs\<close> obtain e where x: "hex_digit x = Some e"
        by auto
      from Cons \<open>s = c # cs\<close> dw hex_digit_props [OF c] hex_digit_props [OF x] dg show ?thesis
        by (auto simp: strtoul16_def Let_def split: list.splits)
    qed
  qed
qed

lemma strtoul16_hex_text: "hex_text n s v \<Longrightarrow> strtoul16 s = int v"
  by (simp add: hex_text_def strtoul16_hex_value)

lemma spells_address: "spells sp (a, bs, cc) \<Longrightarrow> a < 65536"
  by (cases sp) (auto simp: spells_def dest: hex_text_bound4)

lemma upto16:
  "d < 16 \<Longrightarrow> d = 0 \<or> d = 1 \<or> d = 2 \<or> d = 3 \<or> d = 4 \<or> d = 5 \<or> d = 6 \<or> d = 7 \<or> d = 8
     \<or> d = 9 \<or> d = 10 \<or> d = 11 \<or> d = 12 \<or> d = 13 \<or> d = 14 \<or> d = (15 :: nat)"
  by arith

lemma length_hex2 [simp]: "length (hex2 n) = 2" by (simp add: hex2_def)
lemma length_hex4 [simp]: "length (hex4 n) = 4" by (simp add: hex4_def)

lemma hex_digit_hex_char: "d < 16 \<Longrightarrow> hex_digit (hex_char d) = Some d"
  by (drule upto16) (auto simp: hex_char_def hex_digit_def)

lemma hex_value_hex2: "n < 256 \<Longrightarrow> hex_value acc (hex2 n @ s) = hex_value (256 * acc + n) s"
proof -
  assume n: "n < 256"
  have "hex_value acc (hex2 n @ s)
      = hex_value (16 * (16 * acc + n div 16 mod 16) + n mod 16) s"
    by (simp add: hex2_def hex_digit_hex_char)
  also have "16 * (16 * acc + n div 16 mod 16) + n mod 16 = 256 * acc + n"
    using n by simp
  finally show ?thesis .
qed

lemma hex_text_hex2: "n < 256 \<Longrightarrow> hex_text 2 (hex2 n) n"
  using hex_value_hex2 [of n 0 "[]"] by (simp add: hex_text_def)

lemma hex_text_hex4: "a < 65536 \<Longrightarrow> hex_text 4 (hex4 a) a"
proof -
  assume a: "a < 65536"
  then have "a div 256 < 256" "a mod 256 < 256" by simp_all
  then have "hex_value 0 (hex4 a) = Some (256 * (a div 256) + a mod 256)"
    using hex_value_hex2 [of "a div 256" 0 "hex2 (a mod 256)"]
          hex_value_hex2 [of "a mod 256" "a div 256" "[]"]
    by (simp add: hex4_def)
  then show ?thesis by (simp add: hex_text_def)
qed

lemma upper_spells: "wf_record r \<Longrightarrow> spells (upper r) r"
proof -
  assume wf: "wf_record r"
  obtain a bs cc where r: "r = (a, bs, cc)" by (cases r) auto
  from wf have a: "a < 65536" and n: "length bs + 3 < 256" by (simp_all add: r wf_record_def)
  have b: "unat x < 256" for x :: byte using unsigned_less [of x] by simp
  have "list_all2 (\<lambda>p b. hex_text 2 p (unat b)) (map (\<lambda>b. hex2 (unat b)) bs) bs"
    by (simp add: list_all2_conv_all_nth hex_text_hex2 [OF b])
  then show ?thesis
    by (simp add: r upper_def spells_def hex_text_hex2 [OF n] hex_text_hex4 [OF a] hex_text_hex2 [OF b])
qed

lemma upper_spells_all: "list_all wf_record rs \<Longrightarrow> list_all2 spells (map upper rs) rs"
  by (induction rs) (simp_all add: upper_spells)

lemma strncpy_from_mid:
  "NUL \<notin> set s \<Longrightarrow> strncpy_from (pre @ s @ post) (length pre) (length s) = Inr s"
proof (induction s arbitrary: pre)
  case Nil
  then show ?case by simp
next
  case (Cons c cs)
  have "strncpy_from ((pre @ [c]) @ cs @ post) (length (pre @ [c])) (length cs) = Inr cs"
    using Cons.prems by (intro Cons.IH) simp
  then show ?case using Cons.prems by (auto simp: nth_append)
qed

lemma strncpy_from_at:
  "line = pre @ s @ post \<Longrightarrow> length pre = off \<Longrightarrow> length s = n \<Longrightarrow> NUL \<notin> set s \<Longrightarrow>
   strncpy_from line off n = Inr s"
  using strncpy_from_mid [of s pre post] by auto

lemma strncpy_from_total: "off + n \<le> length line \<Longrightarrow> \<exists>s. strncpy_from line off n = Inr s"
proof (induction n arbitrary: off)
  case 0 then show ?case by simp
next
  case (Suc n)
  then have "\<exists>s. strncpy_from line (Suc off) n = Inr s" by (intro Suc.IH) simp
  with Suc.prems show ?case by auto
qed

lemma store_bytes_splice:
  "k + length bs \<le> length m \<Longrightarrow> store_bytes m k bs = take k m @ bs @ drop (k + length bs) m"
proof (induction bs arbitrary: m k)
  case Nil
  then show ?case by simp
next
  case (Cons b bs)
  then have k: "k < length m" by simp
  have "store_bytes (m[k := b]) (Suc k) bs
      = take (Suc k) (m[k := b]) @ bs @ drop (Suc k + length bs) (m[k := b])"
    using Cons.prems by (intro Cons.IH) simp
  moreover have "take (Suc k) (m[k := b]) = take k m @ [b]"
    using k by (simp add: take_Suc_conv_app_nth)
  moreover have "drop (Suc k + length bs) (m[k := b]) = drop (Suc k + length bs) m"
    by simp
  ultimately show ?case by simp
qed

lemma data_loop_spelled:
  "list_all2 (\<lambda>p b. hex_text 2 p (unat b)) ps bs \<Longrightarrow> line = pre @ concat ps @ post \<Longrightarrow>
   length pre = 8 + 2 * i \<Longrightarrow> nat (address - int MEM_OFFSET) + i + length bs \<le> MEM_SIZE \<Longrightarrow>
   data_loop line address (length bs) i m crc
     = Inr (store_bytes m (nat (address - int MEM_OFFSET) + i) bs, crc + sum_list bs)"
proof (induction arbitrary: pre i m crc rule: list_all2_induct)
  case Nil
  then show ?case by simp
next
  case (Cons p ps b bs)
  let ?rest = "concat ps @ post"
  have line: "line = pre @ p @ ?rest" using Cons.prems(1) by simp
  have rd: "strncpy_from line (8 + 2 * i) 2 = Inr p"
    by (rule strncpy_from_at [OF line])
       (simp_all add: Cons.prems(2) hex_text_NUL [OF Cons.hyps(1)] hex_text_length [OF Cons.hyps(1)])
  have val: "(word_of_int (strtoul16 p) :: byte) = b"
    by (simp add: strtoul16_hex_text [OF Cons.hyps(1)])
  have idx: "\<not> MEM_SIZE \<le> nat (address - int MEM_OFFSET) + i" using Cons.prems(3) by simp
  have "data_loop line address (length bs) (Suc i) (m[nat (address - int MEM_OFFSET) + i := b]) (crc + b)
      = Inr (store_bytes (m[nat (address - int MEM_OFFSET) + i := b])
               (nat (address - int MEM_OFFSET) + Suc i) bs, crc + b + sum_list bs)"
  proof (rule Cons.IH)
    show "line = (pre @ p) @ ?rest" using line by simp
    show "length (pre @ p) = 8 + 2 * Suc i"
      using Cons.prems(2) hex_text_length [OF Cons.hyps(1)] by simp
    show "nat (address - int MEM_OFFSET) + Suc i + length bs \<le> MEM_SIZE" using Cons.prems(3) by simp
  qed
  then show ?case using rd val idx by (simp add: Let_def add.assoc del: strncpy_from_numeral)
qed

lemma fgets_take_line:
  "CHR 0x0A \<notin> set body \<Longrightarrow> length body < k \<Longrightarrow>
   fgets_take k (body @ CHR 0x0A # rest) = body @ [CHR 0x0A]"
proof (induction body arbitrary: k)
  case Nil
  then show ?case by (cases k) simp_all
next
  case (Cons c cs)
  then show ?case by (cases k) auto
qed

lemma fgets_line:
  "CHR 0x0A \<notin> set body \<Longrightarrow> length body < 511 \<Longrightarrow>
   fgets MAX_LINE_LEN ((body @ [CHR 0x0A]) @ rest) = Some (body @ [CHR 0x0A], rest)"
  by (simp add: fgets_def fgets_take_line)

lemma payload_text:
  "list_all2 (\<lambda>p b. hex_text 2 p (unat b)) ps bs \<Longrightarrow>
   length (concat ps) = 2 * length bs \<and> CHR 0x0A \<notin> set (concat ps)"
proof (induction rule: list_all2_induct)
  case Nil
  then show ?case by simp
next
  case (Cons p ps b bs)
  then show ?case using hex_text_newline [OF Cons.hyps(1)] hex_text_length [OF Cons.hyps(1)] by simp
qed

lemma text_of_eq:
  "text_of (cnt, ad, ps, c) = (''S1'' @ cnt @ ad @ concat ps @ c) @ [CHR 0x0A]"
  by (simp add: text_of_def)

lemma fgets_text_of:
  assumes sp: "spells sp (a, bs, cc)" and n: "length bs \<le> 250"
  shows "fgets MAX_LINE_LEN (text_of sp @ rest) = Some (text_of sp, rest)"
proof -
  obtain cnt ad ps c where s: "sp = (cnt, ad, ps, c)" by (cases sp) auto
  from sp have h: "hex_text 2 cnt (length bs + 3)" "hex_text 4 ad a"
    "list_all2 (\<lambda>p b. hex_text 2 p (unat b)) ps bs" "hex_text 2 c (unat cc)"
    by (simp_all add: s spells_def)
  let ?body = "''S1'' @ cnt @ ad @ concat ps @ c"
  have nl: "CHR 0x0A \<notin> set ?body"
    using hex_text_newline [OF h(1)] hex_text_newline [OF h(2)] hex_text_newline [OF h(4)]
      payload_text [OF h(3)]
    by simp
  have ln: "length ?body < 511"
    using hex_text_length [OF h(1)] hex_text_length [OF h(2)] hex_text_length [OF h(4)]
      payload_text [OF h(3)] n
    by simp
  show ?thesis unfolding s text_of_eq by (rule fgets_line [OF nl ln])
qed

lemma s1_line_spelled:
  assumes sp: "spells sp (a, bs, cc)" and wf: "wf_record (a, bs, cc)" and len: "length m = MEM_SIZE"
  shows "\<exists>c. s1_line (text_of sp @ junk) m = Inr (put_record (a, bs, cc) m, c)"
proof -
  obtain cnt ad ps c where s: "sp = (cnt, ad, ps, c)" by (cases sp) auto
  from sp have h: "hex_text 2 cnt (length bs + 3)" "hex_text 4 ad a"
    "list_all2 (\<lambda>p b. hex_text 2 p (unat b)) ps bs" "hex_text 2 c (unat cc)"
    by (simp_all add: s spells_def)
  note lens = hex_text_length [OF h(1)] hex_text_length [OF h(2)] hex_text_length [OF h(4)]
  from payload_text [OF h(3)] have pl: "length (concat ps) = 2 * length bs" by simp
  let ?P = "concat ps"
  let ?line = "text_of sp @ junk"
  from wf have n: "length bs \<le> 250"
    and fit: "in_window a \<Longrightarrow> a + length bs \<le> MEM_OFFSET + MEM_SIZE"
    by (simp_all add: wf_record_def)
  have l1: "?line = ''S1'' @ cnt @ (ad @ ?P @ c @ CHR 0x0A # junk)"
    by (simp add: s text_of_def)
  have l2: "?line = (''S1'' @ cnt) @ ad @ (?P @ c @ CHR 0x0A # junk)"
    by (simp add: s text_of_def)
  have l3: "?line = (''S1'' @ cnt @ ad) @ ?P @ (c @ CHR 0x0A # junk)"
    by (simp add: s text_of_def)
  have l4: "?line = (''S1'' @ cnt @ ad @ ?P) @ c @ (CHR 0x0A # junk)"
    by (simp add: s text_of_def)
  have r1: "strncpy_from ?line 2 2 = Inr cnt"
    by (rule strncpy_from_at [OF l1]) (simp_all add: lens hex_text_NUL [OF h(1)])
  have r2: "strncpy_from ?line 4 4 = Inr ad"
    by (rule strncpy_from_at [OF l2]) (simp_all add: lens hex_text_NUL [OF h(2)])
  have r4: "strncpy_from ?line (8 + 2 * length bs) 2 = Inr c"
    by (rule strncpy_from_at [OF l4]) (simp_all add: lens pl hex_text_NUL [OF h(4)])
  have v1: "strtoul16 cnt = int (length bs + 3)" by (rule strtoul16_hex_text [OF h(1)])
  have v2: "strtoul16 ad = int a" by (rule strtoul16_hex_text [OF h(2)])
  show ?thesis
  proof (cases "in_window a")
    case False
    then have "a < MEM_OFFSET \<or> MEM_OFFSET + MEM_SIZE \<le> a" by (auto simp: in_window_def)
    then show ?thesis
      using False
      by (simp add: s1_line_def r1 r2 v1 v2 put_record_def Let_def del: strncpy_from_numeral)
  next
    case True
    then have w: "MEM_OFFSET \<le> a" "a < MEM_OFFSET + MEM_SIZE" by (simp_all add: in_window_def)
    have bound: "nat (int a - int MEM_OFFSET) + 0 + length bs \<le> MEM_SIZE"
      using fit [OF True] w by simp
    have "data_loop ?line (int a) (length bs) 0 m 0
        = Inr (store_bytes m (nat (int a - int MEM_OFFSET) + 0) bs, 0 + sum_list bs)"
      by (rule data_loop_spelled [OF h(3) l3 _ bound]) (simp add: lens)
    also have "nat (int a - int MEM_OFFSET) + 0 = a - MEM_OFFSET" using w by simp
    also have "store_bytes m (a - MEM_OFFSET) bs
        = take (a - MEM_OFFSET) m @ bs @ drop (a - MEM_OFFSET + length bs) m"
      using bound len w by (intro store_bytes_splice) simp
    finally have dl: "data_loop ?line (int a) (length bs) 0 m 0
        = Inr (put_record (a, bs, cc) m, 0 + sum_list bs)"
      using True by (simp add: put_record_def)
    show ?thesis
      using w
      by (simp add: s1_line_def r1 r2 r4 v1 v2 dl Let_def del: strncpy_from_numeral)
  qed
qed

lemma length_put_record:
  "wf_record r \<Longrightarrow> length m = MEM_SIZE \<Longrightarrow> length (put_record r m) = MEM_SIZE"
  by (cases r) (auto simp: wf_record_def put_record_def in_window_def)

lemma read_lines_spelled:
  assumes sp: "spells sp r" and wf: "wf_record r" and len: "length m = MEM_SIZE"
  shows "read_lines line m (text_of sp @ rest)
           = read_lines (store_line (text_of sp) line) (put_record r m) rest"
proof -
  obtain a bs cc where r: "r = (a, bs, cc)" by (cases r) auto
  from wf r have n: "length bs \<le> 250" by (simp add: wf_record_def)
  let ?t = "text_of sp"
  let ?line = "store_line ?t line"
  have st: "?line = ?t @ NUL # drop (Suc (length ?t)) line"
    by (simp add: store_line_def)
  have hd: "?line ! 0 = CHR ''S''" "?line ! Suc 0 = CHR ''1''"
    unfolding st by (cases sp; simp add: text_of_def)+
  from s1_line_spelled [OF sp [unfolded r] wf [unfolded r] len, of "NUL # drop (Suc (length ?t)) line"]
  obtain c where s1: "s1_line ?line m = Inr (put_record (a, bs, cc) m, c)"
    unfolding st by blast
  show ?thesis
    unfolding r
    by (subst read_lines.simps) (simp add: fgets_text_of [OF sp [unfolded r] n] hd s1 Let_def)
qed

lemma read_lines_spelleds:
  "list_all2 spells sps rs \<Longrightarrow> list_all wf_record rs \<Longrightarrow> length m = MEM_SIZE \<Longrightarrow>
   rest = [] \<or> take 2 rest = ''S9'' \<Longrightarrow>
   read_lines line m (file_text sps @ rest) = Inr (fold put_record rs m)"
proof (induction arbitrary: line m rule: list_all2_induct)
  case Nil
  show ?case
  proof (cases rest)
    case Nil
    then show ?thesis by (simp add: file_text_def read_lines.simps fgets_def)
  next
    case (Cons c cs)
    with Nil.prems(3) obtain cs' where rest: "rest = CHR ''S'' # CHR ''9'' # cs'"
      by (cases cs) auto
    show ?thesis
      by (subst read_lines.simps) (simp add: file_text_def rest fgets_def store_line_def)
  qed
next
  case (Cons sp sps r rs)
  have "read_lines line m (file_text (sp # sps) @ rest)
      = read_lines (store_line (text_of sp) line) (put_record r m) (file_text sps @ rest)"
    using read_lines_spelled [OF Cons.hyps(1), of m line "file_text sps @ rest"] Cons.prems
    by (simp add: file_text_def)
  also have "\<dots> = Inr (fold put_record rs (put_record r m))"
    using Cons.prems by (intro Cons.IH) (simp_all add: length_put_record)
  finally show ?case by simp
qed

lemma data_record_wf: "data_record r \<Longrightarrow> wf_record r"
  by (cases r) (auto simp: data_record_def wf_record_def)

lemma nth_put_record:
  assumes "data_record r" "length m = MEM_SIZE" "j < MEM_SIZE"
  shows "put_record r m ! j
           = (if covers r j then payload r ! (j - (addr r - MEM_OFFSET)) else m ! j)"
proof -
  obtain a bs cc where r: "r = (a, bs, cc)" by (cases r) auto
  from assms(1) r have d: "MEM_OFFSET \<le> a" "a + length bs \<le> MEM_OFFSET + MEM_SIZE"
    by (simp_all add: data_record_def)
  show ?thesis
  proof (cases "in_window a")
    case False
    with d have "bs = []" by (cases bs) (auto simp: in_window_def)
    with False show ?thesis by (auto simp: r put_record_def covers_def)
  next
    case True
    let ?k = "a - MEM_OFFSET"
    have k: "?k + length bs \<le> length m" using d assms(2) by simp
    have "put_record r m ! j = (take ?k m @ bs @ drop (?k + length bs) m) ! j"
      using True by (simp add: r put_record_def)
    also have "\<dots> = (if ?k \<le> j \<and> j < ?k + length bs then bs ! (j - ?k) else m ! j)"
      using k assms(2,3) by (auto simp: nth_append min_def)
    finally show ?thesis by (simp add: r covers_def addr_def payload_def)
  qed
qed

lemma image_of_records:
  "list_all data_record rs \<Longrightarrow> length m0 = MEM_SIZE \<Longrightarrow>
   length (fold put_record rs m0) = MEM_SIZE
   \<and> (\<forall>k<length rs. \<forall>i<length (payload (rs ! k)).
         (\<forall>k'. k < k' \<and> k' < length rs \<longrightarrow> \<not> covers (rs ! k') (addr (rs ! k) - MEM_OFFSET + i)) \<longrightarrow>
         fold put_record rs m0 ! (addr (rs ! k) - MEM_OFFSET + i) = payload (rs ! k) ! i)
   \<and> (\<forall>j<MEM_SIZE. (\<forall>r\<in>set rs. \<not> covers r j) \<longrightarrow> fold put_record rs m0 ! j = m0 ! j)"
proof (induction rs rule: rev_induct)
  case Nil
  then show ?case by simp
next
  case (snoc r rs)
  let ?M = "fold put_record rs m0"
  from snoc.prems have dr: "data_record r" and drs: "list_all data_record rs" by simp_all
  from snoc.IH [OF drs snoc.prems(2)] have
    len: "length ?M = MEM_SIZE"
    and pl: "\<And>k i. k < length rs \<Longrightarrow> i < length (payload (rs ! k)) \<Longrightarrow>
         (\<forall>k'. k < k' \<and> k' < length rs \<longrightarrow> \<not> covers (rs ! k') (addr (rs ! k) - MEM_OFFSET + i)) \<Longrightarrow>
         ?M ! (addr (rs ! k) - MEM_OFFSET + i) = payload (rs ! k) ! i"
    and un: "\<And>j. j < MEM_SIZE \<Longrightarrow> (\<forall>r\<in>set rs. \<not> covers r j) \<Longrightarrow> ?M ! j = m0 ! j"
    by blast+
  have f: "fold put_record (rs @ [r]) m0 = put_record r ?M" by simp
  have nth: "put_record r ?M ! j
      = (if covers r j then payload r ! (j - (addr r - MEM_OFFSET)) else ?M ! j)"
    if "j < MEM_SIZE" for j
    by (rule nth_put_record [OF dr len that])
  have inw: "addr x - MEM_OFFSET + i < MEM_SIZE" if "data_record x" "i < length (payload x)" for x i
    using that by (cases x) (auto simp: data_record_def addr_def payload_def)
  have "length (put_record r ?M) = MEM_SIZE"
    by (rule length_put_record [OF data_record_wf [OF dr] len])
  moreover have "put_record r ?M ! (addr ((rs @ [r]) ! k) - MEM_OFFSET + i) = payload ((rs @ [r]) ! k) ! i"
    if k: "k < length (rs @ [r])" and i: "i < length (payload ((rs @ [r]) ! k))"
      and later: "\<forall>k'. k < k' \<and> k' < length (rs @ [r]) \<longrightarrow>
                 \<not> covers ((rs @ [r]) ! k') (addr ((rs @ [r]) ! k) - MEM_OFFSET + i)"
    for k i
  proof (cases "k < length rs")
    case True
    then have x: "(rs @ [r]) ! k = rs ! k" by (simp add: nth_append)
    have dx: "data_record (rs ! k)" using drs True by (simp add: list_all_length)
    let ?j = "addr (rs ! k) - MEM_OFFSET + i"
    have j: "?j < MEM_SIZE" using inw [OF dx] i x by simp
    have "\<not> covers r ?j" using later [rule_format, of "length rs"] True x by simp
    moreover have "\<forall>k'. k < k' \<and> k' < length rs \<longrightarrow> \<not> covers (rs ! k') ?j"
    proof (intro allI impI)
      fix k' assume k': "k < k' \<and> k' < length rs"
      then have "\<not> covers ((rs @ [r]) ! k') ?j" using later [rule_format, of k'] x by simp
      with k' show "\<not> covers (rs ! k') ?j" by (simp add: nth_append)
    qed
    ultimately show ?thesis using nth [OF j] pl [OF True] i x by simp
  next
    case False
    with k have x: "(rs @ [r]) ! k = r" by (simp add: nth_append)
    let ?j = "addr r - MEM_OFFSET + i"
    have j: "?j < MEM_SIZE" using inw [OF dr] i x by simp
    have "covers r ?j" using i x by (cases r) (simp add: covers_def addr_def payload_def)
    then show ?thesis using nth [OF j] x by simp
  qed
  moreover have "put_record r ?M ! j = m0 ! j"
    if "j < MEM_SIZE" "\<forall>x\<in>set (rs @ [r]). \<not> covers x j" for j
    using nth [OF that(1)] un [OF that(1)] that(2) by simp
  ultimately show ?case unfolding f by blast
qed

lemma ReadS19_spelled:
  assumes "list_all2 spells sps rs" "list_all wf_record rs" "rest = [] \<or> take 2 rest = ''S9''"
  shows "HRM_ICP_ReadS19 l (Some (file_text sps @ rest)) hrm
     = Inr (HRM_OK, set_icp_flags (hrm\<lparr>last_errorcode := 0,
                                       mem := fold put_record rs (replicate MEM_SIZE 0xff)\<rparr>))"
  using read_lines_spelleds [OF assms(1,2) _ assms(3), of "replicate MEM_SIZE 0xff" l]
  by (simp add: HRM_ICP_ReadS19_def)

lemma ReadS19_records:
  assumes "list_all wf_record rs" "rest = [] \<or> take 2 rest = ''S9''"
  shows "HRM_ICP_ReadS19 l (Some (s19_text rs @ rest)) hrm
     = Inr (HRM_OK, set_icp_flags (hrm\<lparr>last_errorcode := 0,
                                       mem := fold put_record rs (replicate MEM_SIZE 0xff)\<rparr>))"
  unfolding s19_text_def by (rule ReadS19_spelled [OF upper_spells_all [OF assms(1)] assms])

lemmas spells_eval = spells_def hex_text_def hex_digit_def

lemma mem_set_icp_flags [simp]: "mem (set_icp_flags h) = mem h"
  by (simp add: set_icp_flags_def)

lemma nth_image_two:
  "fold put_record [(0xDC00, [0x01], 0x1E), (0xDC00, [0x02], 0x1D)] (replicate MEM_SIZE 0xff) ! 0 = 0x02"
  by (simp add: put_record_def in_window_def)

lemma put_record_data: "record_data r = record_data r' \<Longrightarrow> put_record r = put_record r'"
  by (cases r; cases r') (auto simp: record_data_def put_record_def fun_eq_iff)

lemma wf_record_data: "record_data r = record_data r' \<Longrightarrow> wf_record r = wf_record r'"
  by (cases r; cases r') (auto simp: record_data_def wf_record_def)

lemma fold_put_record_data:
  "map record_data rs = map record_data rs' \<Longrightarrow> fold put_record rs m = fold put_record rs' m"
proof (induction rs arbitrary: rs' m)
  case Nil
  then show ?case by simp
next
  case (Cons r rs)
  from Cons.prems obtain r' rs'' where rs': "rs' = r' # rs''" by (cases rs') auto
  from Cons.prems have hd: "record_data r = record_data r'"
    and tl: "map record_data rs = map record_data rs''"
    unfolding rs' by simp_all
  have 1: "put_record r = put_record r'" by (rule put_record_data [OF hd])
  have 2: "fold put_record rs (put_record r' m) = fold put_record rs'' (put_record r' m)"
    by (rule Cons.IH [OF tl])
  show ?case unfolding rs' fold_simps 1 by (rule 2)
qed

lemma list_all_wf_data:
  "map record_data rs = map record_data rs' \<Longrightarrow> list_all wf_record rs \<Longrightarrow> list_all wf_record rs'"
proof (induction rs arbitrary: rs')
  case Nil
  then show ?case by simp
next
  case (Cons r rs)
  from Cons.prems(1) obtain r' rs'' where rs': "rs' = r' # rs''" by (cases rs') auto
  from Cons.prems(1) have hd: "record_data r = record_data r'"
    and tl: "map record_data rs = map record_data rs''"
    unfolding rs' by simp_all
  from Cons.prems(2) have wr: "wf_record r" and wrs: "list_all wf_record rs" by simp_all
  have 1: "wf_record r'" using wf_record_data [OF hd] wr by (rule iffD1)
  have 2: "list_all wf_record rs''" by (rule Cons.IH [OF tl wrs])
  show ?case unfolding rs' using 1 2 by simp
qed

lemma fold_put_record_skip:
  "\<not> in_window a \<Longrightarrow> fold put_record (rs @ (a, bs, cc) # rs') m = fold put_record (rs @ rs') m"
  by (simp add: put_record_def)

subsection \<open>A file that fills the checksum window with zeros\<close>

lemma zero_window_data: "list_all data_record zero_window_records"
  by (simp add: zero_window_records_def data_record_def)

lemma zero_window_image:
  assumes "0x1A00 \<le> j" "j < 0x1BFE"
  shows "fold put_record zero_window_records (replicate MEM_SIZE 0xff) ! j = 0"
proof -
  let ?r1 = "(0xF600, replicate 170 0, 0x5C) :: s1_record"
  let ?r2 = "(0xF6AA, replicate 170 0, 0xB2) :: s1_record"
  let ?r3 = "(0xF754, replicate 170 0, 0x07) :: s1_record"
  let ?m0 = "replicate MEM_SIZE 0xff :: byte list"
  have d: "data_record ?r1" "data_record ?r2" "data_record ?r3"
    by (simp_all add: data_record_def)
  have l1: "length (put_record ?r1 ?m0) = MEM_SIZE"
    by (rule length_put_record [OF data_record_wf [OF d(1)]]) simp
  have l2: "length (put_record ?r2 (put_record ?r1 ?m0)) = MEM_SIZE"
    by (rule length_put_record [OF data_record_wf [OF d(2)] l1])
  have j: "j < MEM_SIZE" using assms by simp
  have n1: "put_record ?r1 ?m0 ! j = (if covers ?r1 j then 0 else 0xff)"
    using nth_put_record [OF d(1) _ j, of ?m0] j
    by (auto simp: covers_def addr_def payload_def)
  have n2: "put_record ?r2 (put_record ?r1 ?m0) ! j
      = (if covers ?r2 j then 0 else put_record ?r1 ?m0 ! j)"
    using nth_put_record [OF d(2) l1 j]
    by (auto simp: covers_def addr_def payload_def)
  have n3: "put_record ?r3 (put_record ?r2 (put_record ?r1 ?m0)) ! j
      = (if covers ?r3 j then 0 else put_record ?r2 (put_record ?r1 ?m0) ! j)"
    using nth_put_record [OF d(3) l2 j]
    by (auto simp: covers_def addr_def payload_def)
  have c: "covers ?r1 j \<or> covers ?r2 j \<or> covers ?r3 j"
    using assms by (auto simp: covers_def)
  show ?thesis
    unfolding zero_window_records_def using c by (auto simp: n1 n2 n3)
qed

lemma checksum_sum_window_zero:
  "(\<And>j. 0x1A00 \<le> j \<Longrightarrow> j < 0x1BFE \<Longrightarrow> m ! j = 0) \<Longrightarrow> checksum_sum m = 0"
  unfolding checksum_sum_def by (rule fold_add_zero) auto

lemma zero_window_read:
  "HRM_ICP_ReadS19 l (Some zero_window_file) hrm
     = Inr (HRM_OK, set_icp_flags (hrm\<lparr>last_errorcode := 0,
              mem := fold put_record zero_window_records (replicate MEM_SIZE 0xff)\<rparr>))"
  using ReadS19_records [of zero_window_records "[]" l hrm] zero_window_data data_record_wf
  by (auto simp: zero_window_file_def list_all_iff)

lemma zero_window_calc:
  "calc_icp_flag (fold put_record zero_window_records (replicate MEM_SIZE 0xff)) = 0x10000"
  by (simp add: calc_icp_flag_def checksum_sum_window_zero zero_window_image)

lemma zero_window_stored:
  "file_icp_flag (fold put_record zero_window_records (replicate MEM_SIZE 0xff)) = 0xffff"
proof -
  from image_of_records [OF zero_window_data, of "replicate MEM_SIZE 0xff"]
  have un: "\<And>j. j < MEM_SIZE \<Longrightarrow> (\<forall>r\<in>set zero_window_records. \<not> covers r j) \<Longrightarrow>
      fold put_record zero_window_records (replicate MEM_SIZE 0xff) ! j = replicate MEM_SIZE 0xff ! j"
    by simp
  have "fold put_record zero_window_records (replicate MEM_SIZE 0xff) ! 0x1BFE = 0xff"
       "fold put_record zero_window_records (replicate MEM_SIZE 0xff) ! 0x1BFF = 0xff"
    using un [of "0x1BFE"] un [of "0x1BFF"] by (simp_all add: zero_window_records_def covers_def)
  then show ?thesis by (simp add: file_icp_flag_def)
qed

section \<open>The claims\<close>

subsection \<open>C1: when a block operation succeeds\<close>

text \<open>
  Claim C1 says that an erase-block or program-block operation succeeds if and only if
  the issuing transfer returned the expected byte count (0 for erase, 64 for program)
  and the polled status byte is 1. The code does not do that. The program operation
  compares the byte count of the status poll with 1 twice and never looks at the
  status byte: with a program transfer that returns 64 and a poll that returns one
  byte with the value 0, it returns \<open>HRM_OK\<close>. The erase operation overwrites the
  result of the erase transfer with that of the poll: with an erase transfer that
  fails with \<open>- 1\<close> and a poll that returns one byte with the value 1, it returns
  \<open>HRM_OK\<close>. (What success depends on in general is in the lemmas
  \<open>program_block_result\<close> and \<open>erase_block_result\<close>.)
\<close>

theorem block_operation_success_ignores_status_and_count:
  "fst (program_block (\<lambda>n. if n = 0 then (64, 0) else (1, 0)) h
          \<lparr>trace = [], msgs = 0, opens = 0\<rparr> 0xDC00) = HRM_OK
   \<and> fst (HRM_ICP_EraseFlashBlock (\<lambda>n. if n = 0 then (- 1, 0) else (1, 1)) (h\<lparr>usb_dev := True\<rparr>)
            \<lparr>trace = [], msgs = 0, opens = 0\<rparr> 0xDC00) = HRM_OK"
  by (simp add: program_block_def HRM_ICP_EraseFlashBlock_def usb_control_msg_def emit_def)

theorem block_operation_success_ignores_status_and_count_witness:
  "fst (program_block (\<lambda>n. if n = 0 then (64, 0) else (1, 0)) example_hrm
          \<lparr>trace = [], msgs = 0, opens = 0\<rparr> 0xDC00) = HRM_OK
   \<and> fst (HRM_ICP_EraseFlashBlock (\<lambda>n. if n = 0 then (- 1, 0) else (1, 1))
            (example_hrm\<lparr>usb_dev := True\<rparr>)
            \<lparr>trace = [], msgs = 0, opens = 0\<rparr> 0xDC00) = HRM_OK"
  by (rule block_operation_success_ignores_status_and_count)

subsection \<open>C2: parsing places the payloads\<close>

text \<open>
  Claim C2, as amended. The input is the text of S1 records, written with hex digits
  of either case, each with all its payload addresses in the window [0xDC00, 0xF800),
  at most 250 payload bytes (so that the line and its newline fit the 512-byte line
  buffer) and any trailing checksum byte; the file ends there or goes on with an S9
  record. Then \<open>HRM_ICP_ReadS19\<close> returns \<open>HRM_OK\<close> with an image of \<open>MEM_SIZE\<close> bytes
  in which payload byte \<open>i\<close> of record \<open>k\<close> is at index \<open>address - 0xDC00 + i\<close>, unless
  a later record of the file covers that index, and every index that no record covers
  holds 0xff.
\<close>

theorem parse_places_payloads:
  assumes "list_all2 spells sps rs" and "list_all data_record rs"
    and "rest = [] \<or> take 2 rest = ''S9''"
  shows "\<exists>hrm'. HRM_ICP_ReadS19 l (Some (file_text sps @ rest)) hrm = Inr (HRM_OK, hrm')
     \<and> length (mem hrm') = MEM_SIZE
     \<and> (\<forall>k<length rs. \<forall>i<length (payload (rs ! k)).
           (\<forall>k'. k < k' \<and> k' < length rs \<longrightarrow>
                 \<not> covers (rs ! k') (addr (rs ! k) - MEM_OFFSET + i)) \<longrightarrow>
           mem hrm' ! (addr (rs ! k) - MEM_OFFSET + i) = payload (rs ! k) ! i)
     \<and> (\<forall>j<MEM_SIZE. (\<forall>r\<in>set rs. \<not> covers r j) \<longrightarrow> mem hrm' ! j = 0xff)"
proof -
  have wf: "list_all wf_record rs"
    using assms(2) data_record_wf by (auto simp: list_all_iff)
  let ?h = "set_icp_flags (hrm\<lparr>last_errorcode := 0,
                                mem := fold put_record rs (replicate MEM_SIZE 0xff)\<rparr>)"
  have rd: "HRM_ICP_ReadS19 l (Some (file_text sps @ rest)) hrm = Inr (HRM_OK, ?h)"
    by (rule ReadS19_spelled [OF assms(1) wf assms(3)])
  from image_of_records [OF assms(2), of "replicate MEM_SIZE 0xff"]
  show ?thesis unfolding rd by (intro exI [of _ ?h]) simp
qed

text \<open>
  The witness: a record of four bytes at 0xDC00, one of one byte at 0xF600, in
  digits of both cases, and an S9 record.
\<close>

theorem parse_places_payloads_witness:
  "file_text [(''07'', ''dc00'', [''01'', ''02'', ''03'', ''04''], ''12''), (''04'', ''F600'', [''aa''], ''5B'')]
     = ''S107dc000102030412'' @ [CHR 0x0A] @ ''S104F600aa5B'' @ [CHR 0x0A]
   \<and> list_all2 spells
       [(''07'', ''dc00'', [''01'', ''02'', ''03'', ''04''], ''12''), (''04'', ''F600'', [''aa''], ''5B'')]
       [(0xDC00, [0x01, 0x02, 0x03, 0x04], 0x12), (0xF600, [0xAA], 0x5B)]
   \<and> list_all data_record [(0xDC00, [0x01, 0x02, 0x03, 0x04], 0x12), (0xF600, [0xAA], 0x5B)]
   \<and> (\<exists>hrm'. HRM_ICP_ReadS19 example_line
                 (Some (file_text [(''07'', ''dc00'', [''01'', ''02'', ''03'', ''04''], ''12''),
                                   (''04'', ''F600'', [''aa''], ''5B'')] @ ''S9030000FC''))
                 example_hrm
               = Inr (HRM_OK, hrm')
             \<and> length (mem hrm') = MEM_SIZE
             \<and> take 4 (mem hrm') = [0x01, 0x02, 0x03, 0x04]
             \<and> mem hrm' ! 0x1A00 = 0xAA \<and> mem hrm' ! 4 = 0xff)"
proof -
  let ?sps = "[(''07'', ''dc00'', [''01'', ''02'', ''03'', ''04''], ''12''), (''04'', ''F600'', [''aa''], ''5B'')] :: s1_spelling list"
  let ?rs = "[(0xDC00, [0x01, 0x02, 0x03, 0x04], 0x12), (0xF600, [0xAA], 0x5B)] :: s1_record list"
  have t: "file_text ?sps = ''S107dc000102030412'' @ [CHR 0x0A] @ ''S104F600aa5B'' @ [CHR 0x0A]"
    by (simp add: file_text_def text_of_def)
  have s: "list_all2 spells ?sps ?rs" by (simp add: spells_eval)
  have d: "list_all data_record ?rs" by (simp add: data_record_def)
  have s9: "''S9030000FC'' = [] \<or> take 2 ''S9030000FC'' = ''S9''" by simp
  from parse_places_payloads [OF s d s9, of example_line example_hrm] obtain hrm' where
    rd: "HRM_ICP_ReadS19 example_line (Some (file_text ?sps @ ''S9030000FC'')) example_hrm = Inr (HRM_OK, hrm')"
    and len: "length (mem hrm') = MEM_SIZE"
    and pl: "\<And>k i. k < length ?rs \<Longrightarrow> i < length (payload (?rs ! k)) \<Longrightarrow>
           (\<forall>k'. k < k' \<and> k' < length ?rs \<longrightarrow>
                 \<not> covers (?rs ! k') (addr (?rs ! k) - MEM_OFFSET + i)) \<Longrightarrow>
           mem hrm' ! (addr (?rs ! k) - MEM_OFFSET + i) = payload (?rs ! k) ! i"
    and un: "\<And>j. j < MEM_SIZE \<Longrightarrow> (\<forall>r\<in>set ?rs. \<not> covers r j) \<Longrightarrow> mem hrm' ! j = 0xff"
    by blast
  have later: "\<forall>k'. 0 < k' \<and> k' < length ?rs \<longrightarrow> \<not> covers (?rs ! k') (addr (?rs ! 0) - MEM_OFFSET + i)"
    if "i < 4" for i
    using that by (auto simp: covers_def addr_def less_Suc_eq)
  have p: "mem hrm' ! i = [0x01, 0x02, 0x03, 0x04] ! i" if "i < 4" for i
    using pl [of 0 i] later [OF that] that by (simp add: addr_def payload_def)
  have t4: "take 4 (mem hrm') = [0x01, 0x02, 0x03, 0x04]"
    using len p by (simp add: list_eq_iff_nth_eq)
  have none: "\<forall>k'. 1 < k' \<and> k' < length ?rs \<longrightarrow> \<not> covers (?rs ! k') (addr (?rs ! 1) - MEM_OFFSET + 0)"
    by auto
  have q: "mem hrm' ! 0x1A00 = 0xAA"
    using pl [OF _ _ none] by (simp add: addr_def payload_def)
  have u: "mem hrm' ! 4 = 0xff"
    using un [of 4] by (simp add: covers_def)
  show ?thesis using t s d rd len t4 q u by blast
qed

text \<open>
  The claim as stated fails for records that overlap: of two records at 0xDC00 the
  second one wins, and payload byte 0 of the first, 0x01, is not at index 0.
\<close>

theorem later_record_overwrites_earlier:
  "s19_text [(0xDC00, [0x01], 0x1E), (0xDC00, [0x02], 0x1D)]
     = ''S104DC00011E'' @ [CHR 0x0A] @ ''S104DC00021D'' @ [CHR 0x0A]
   \<and> data_record (0xDC00, [0x01], 0x1E) \<and> data_record (0xDC00, [0x02], 0x1D)
   \<and> (\<exists>hrm'. HRM_ICP_ReadS19 example_line (Some (''S104DC00011E'' @ [CHR 0x0A] @ ''S104DC00021D'' @ [CHR 0x0A]))
                 example_hrm = Inr (HRM_OK, hrm')
             \<and> mem hrm' ! (0xDC00 - MEM_OFFSET + 0) \<noteq> [0x01] ! 0)"
proof -
  let ?rs = "[(0xDC00, [0x01], 0x1E), (0xDC00, [0x02], 0x1D)] :: s1_record list"
  have t: "s19_text ?rs = ''S104DC00011E'' @ [CHR 0x0A] @ ''S104DC00021D'' @ [CHR 0x0A]"
    by (simp add: s19_text_def file_text_def text_of_def upper_def hex2_def hex4_def hex_char_def)
  have d: "data_record (0xDC00, [0x01], 0x1E)" "data_record (0xDC00, [0x02], 0x1D)"
    by (simp_all add: data_record_def)
  have wf: "list_all wf_record ?rs" using d data_record_wf by simp
  have "HRM_ICP_ReadS19 example_line (Some (s19_text ?rs @ [])) example_hrm
     = Inr (HRM_OK, set_icp_flags (example_hrm\<lparr>last_errorcode := 0,
                                       mem := fold put_record ?rs (replicate MEM_SIZE 0xff)\<rparr>))"
    by (rule ReadS19_records [OF wf]) simp
  then have "\<exists>hrm'. HRM_ICP_ReadS19 example_line (Some (s19_text ?rs)) example_hrm = Inr (HRM_OK, hrm')
             \<and> mem hrm' ! (0xDC00 - MEM_OFFSET + 0) \<noteq> [0x01] ! 0"
    using nth_image_two by simp
  then show ?thesis unfolding t using t d by simp
qed

subsection \<open>C3: the calculated flag\<close>

text \<open>
  Claim C3 says that \<open>flag_calculated\<close> is the two's complement, modulo 65536, of the
  sum of the bytes at 0xF600 .. 0xF7FD, and so always less than 65536. For the file
  \<open>zero_window_file\<close>, whose records set all those bytes to 0, the sum is 0 and the
  code computes \<open>0xffff - 0 + 1 = 0x10000\<close>, which is not a 16-bit value.
\<close>

theorem icp_flag_calculated_exceeds_16_bits:
  "\<exists>hrm'. HRM_ICP_ReadS19 l (Some zero_window_file) hrm = Inr (HRM_OK, hrm')
         \<and> icp_flag_calculated hrm' = 0x10000 \<and> \<not> unat (icp_flag_calculated hrm') < 65536"
  unfolding zero_window_read by (simp add: set_icp_flags_def zero_window_calc)

subsection \<open>C4: repairing the flag twice\<close>

text \<open>
  Claim C4 says that after the repair the recomputed flag and the stored flag are
  equal. For the file \<open>zero_window_file\<close> the stored flag is 0xffff and the
  calculated flag is 0x10000; the repair stores the two low bytes of 0x10000, 0 and
  0, and the flags computed from the repaired image are 0 (stored) and 0x10000
  (calculated) again: they differ, and a second repair would write again.
\<close>

theorem icp_flag_repair_not_idempotent:
  "\<exists>hrm'. HRM_ICP_ReadS19 l (Some zero_window_file) hrm = Inr (HRM_OK, hrm')
         \<and> icp_flag hrm' = 0xffff \<and> icp_flag_calculated hrm' = 0x10000
         \<and> icp_flag (set_icp_flags (fix_icp_flag hrm')) = 0
         \<and> icp_flag_calculated (set_icp_flags (fix_icp_flag hrm')) = 0x10000"
proof -
  let ?M = "fold put_record zero_window_records (replicate MEM_SIZE 0xff)"
  let ?h = "set_icp_flags (hrm\<lparr>last_errorcode := 0, mem := ?M\<rparr>)"
  have len: "length ?M = MEM_SIZE"
    using image_of_records [OF zero_window_data, of "replicate MEM_SIZE 0xff"] by simp
  have z: "(256 :: byte) = 0" by simp
  have fx: "mem (fix_icp_flag ?h) = ?M[0x1BFE := 0, 0x1BFF := 0]"
    by (simp add: fix_icp_flag_def set_icp_flags_def zero_window_calc zero_window_stored z)
  have calc: "calc_icp_flag (?M[0x1BFE := 0, 0x1BFF := 0]) = 0x10000"
    by (simp add: calc_icp_flag_def checksum_sum_window_zero zero_window_image)
  have stored: "file_icp_flag (?M[0x1BFE := 0, 0x1BFF := 0]) = 0"
    using len by (simp add: file_icp_flag_def)
  show ?thesis
    unfolding zero_window_read
    by (simp add: set_icp_flags_def [of "fix_icp_flag _"] fx calc stored)
       (simp add: set_icp_flags_def zero_window_calc zero_window_stored)
qed

subsection \<open>C5: the program phase skips blank blocks\<close>

text \<open>
  Claim C5, as amended: the program phase issues program transfers only for blocks
  with a byte other than 0xff, in the order of the addresses, each carrying the 64
  bytes of its block; when the phase runs to its end (it returns \<open>HRM_OK\<close>) it has
  issued one for every such block. Whatever the device answers, an image that is
  0xff throughout gets no program transfer, and an image with exactly one byte other
  than 0xff, at index \<open>p\<close>, gets exactly one, for the block that contains \<open>p\<close>.
\<close>

theorem program_phase_skips_blank_blocks:
  assumes "length (mem hrm) = MEM_SIZE"
  shows "case HRM_ICP_ProgramFlash dev hrm w of (r, hrm', w') \<Rightarrow>
     (\<exists>evs. trace w' = trace w @ evs
        \<and> (\<exists>n. filter is_program_transfer evs
                 = map (prog_msg (mem hrm)) (take n (filter (\<lambda>a. \<not> blank (mem hrm) a) prog_blocks)))
        \<and> (r = HRM_OK \<longrightarrow>
             filter is_program_transfer evs
               = map (prog_msg (mem hrm)) (filter (\<lambda>a. \<not> blank (mem hrm) a) prog_blocks))
        \<and> ((\<forall>i<MEM_SIZE. mem hrm ! i = 0xff) \<longrightarrow> filter is_program_transfer evs = [])
        \<and> (p < MEM_SIZE \<longrightarrow> mem hrm ! p \<noteq> 0xff \<longrightarrow>
             (\<forall>q<MEM_SIZE. q \<noteq> p \<longrightarrow> mem hrm ! q = 0xff) \<longrightarrow>
             filter is_program_transfer evs
               = [prog_msg (mem hrm) (MEM_OFFSET + MEM_PROG_BLOCK_SIZE * (p div 64))]))"
proof -
  let ?m = "mem hrm"
  let ?V = "filter (\<lambda>a. \<not> blank ?m a) prog_blocks"
  obtain r hrm' w' where pf: "HRM_ICP_ProgramFlash dev hrm w = (r, hrm', w')"
    by (cases "HRM_ICP_ProgramFlash dev hrm w") auto
  from pf program_loop_inv [of dev MEM_OFFSET "hrm\<lparr>last_errorcode := 0\<rparr>" w r hrm' w']
  obtain evs n where inv: "trace w' = trace w @ evs"
      "filter is_program_transfer evs = map (prog_msg ?m) (take n ?V)"
      "?V \<noteq> [] \<longrightarrow> 0 < n" "r = HRM_OK \<longrightarrow> length ?V \<le> n"
    unfolding HRM_ICP_ProgramFlash_def
    by (auto simp: blocks_from_eq filter_valid [OF assms])
  have full: "filter is_program_transfer evs = map (prog_msg ?m) ?V" if "r = HRM_OK"
    using inv that by simp
  have none: "filter is_program_transfer evs = []" if "\<forall>i<MEM_SIZE. ?m ! i = 0xff"
    using inv(2) all_blank [OF assms that] by simp
  have one: "filter is_program_transfer evs
               = [prog_msg ?m (MEM_OFFSET + MEM_PROG_BLOCK_SIZE * (p div 64))]"
    if "p < MEM_SIZE" "?m ! p \<noteq> 0xff" "\<forall>q<MEM_SIZE. q \<noteq> p \<longrightarrow> ?m ! q = 0xff"
  proof -
    have V: "?V = [MEM_OFFSET + MEM_PROG_BLOCK_SIZE * (p div 64)]"
      by (rule one_nonblank [OF assms that])
    with inv(3) have "0 < n" by simp
    with inv(2) V show ?thesis by simp
  qed
  show ?thesis
    unfolding pf prod.case
    using inv(1,2) full none one by (intro exI [of _ evs]) blast
qed

text \<open>
  The witness: an image with the single byte 0 at index 100, which lies in the block
  at 0xDC40, and the image that is 0xff throughout.
\<close>

theorem program_phase_skips_blank_blocks_witness:
  "length (mem (example_hrm\<lparr>mem := (replicate MEM_SIZE 0xff)[100 := 0]\<rparr>)) = MEM_SIZE
   \<and> (100 :: nat) < MEM_SIZE
   \<and> mem (example_hrm\<lparr>mem := (replicate MEM_SIZE 0xff)[100 := 0]\<rparr>) ! 100 \<noteq> 0xff
   \<and> (case HRM_ICP_ProgramFlash (\<lambda>n. (64, 1)) (example_hrm\<lparr>mem := (replicate MEM_SIZE 0xff)[100 := 0]\<rparr>) world0 of
        (r, hrm', w') \<Rightarrow>
          filter is_program_transfer (trace w') = [prog_msg ((replicate MEM_SIZE 0xff)[100 := 0]) 0xDC40])
   \<and> length (mem (example_hrm\<lparr>mem := replicate MEM_SIZE 0xff\<rparr>)) = MEM_SIZE
   \<and> (case HRM_ICP_ProgramFlash (\<lambda>n. (64, 1)) (example_hrm\<lparr>mem := replicate MEM_SIZE 0xff\<rparr>) world0 of
        (r, hrm', w') \<Rightarrow> filter is_program_transfer (trace w') = [])"
proof -
  let ?h1 = "example_hrm\<lparr>mem := (replicate MEM_SIZE 0xff)[100 := 0]\<rparr>"
  let ?h0 = "example_hrm\<lparr>mem := replicate MEM_SIZE 0xff\<rparr>"
  have l1: "length (mem ?h1) = MEM_SIZE" and l0: "length (mem ?h0) = MEM_SIZE" by simp_all
  have p: "mem ?h1 ! 100 \<noteq> 0xff" by simp
  have rest: "\<forall>q<MEM_SIZE. q \<noteq> 100 \<longrightarrow> mem ?h1 ! q = 0xff" by simp
  have all: "\<forall>i<MEM_SIZE. mem ?h0 ! i = 0xff" by simp
  have A: "case HRM_ICP_ProgramFlash (\<lambda>n. (64, 1)) ?h1 world0 of
        (r, hrm', w') \<Rightarrow>
          filter is_program_transfer (trace w') = [prog_msg ((replicate MEM_SIZE 0xff)[100 := 0]) 0xDC40]"
    using program_phase_skips_blank_blocks [OF l1, where dev = "\<lambda>n. (64, 1)" and w = world0 and p = 100] p rest
    by (auto simp: world0_def split: prod.splits)
  have B: "case HRM_ICP_ProgramFlash (\<lambda>n. (64, 1)) ?h0 world0 of
        (r, hrm', w') \<Rightarrow> filter is_program_transfer (trace w') = []"
    using program_phase_skips_blank_blocks [OF l0, where dev = "\<lambda>n. (64, 1)" and w = world0 and p = 0] all
    by (auto simp: world0_def split: prod.splits)
  show ?thesis using l1 l0 p A B by simp
qed

text \<open>
  The claim as stated fails when the phase is aborted. The image below has a byte
  other than 0xff in the block at 0xDC00 and in the block at 0xDC40; the device
  answers the first program transfer with the error \<open>- 1\<close>. The phase returns
  \<open>HRM_ERROR\<close> after that one transfer, and the block at 0xDC40, which is not blank,
  gets no program transfer.
\<close>

theorem program_phase_abort_leaves_block_unprogrammed:
  "\<not> blank ((replicate MEM_SIZE 0xff)[0 := 0, 64 := 0]) 0xDC40
   \<and> HRM_ICP_ProgramFlash (\<lambda>n. (- 1, 0))
        (example_hrm\<lparr>mem := (replicate MEM_SIZE 0xff)[0 := 0, 64 := 0]\<rparr>) world0
      = (HRM_ERROR,
         example_hrm\<lparr>mem := (replicate MEM_SIZE 0xff)[0 := 0, 64 := 0],
                     last_errorcode := HRM_FLASH_PROGRAM_ERROR\<rparr>,
         world0\<lparr>trace := [prog_msg ((replicate MEM_SIZE 0xff)[0 := 0, 64 := 0]) 0xDC00], msgs := 1\<rparr>)"
proof -
  let ?m = "(replicate MEM_SIZE 0xff)[0 := 0, 64 := 0] :: byte list"
  have nb: "\<not> blank ?m 0xDC40"
    by (rule not_blankI [where j = 0]) simp_all
  have v: "block_valid ?m 0xDC00"
    unfolding block_valid_iff by (intro exI [of _ 0]) simp
  have "HRM_ICP_ProgramFlash (\<lambda>n. (- 1, 0)) (example_hrm\<lparr>mem := ?m\<rparr>) world0
      = (HRM_ERROR, example_hrm\<lparr>mem := ?m, last_errorcode := HRM_FLASH_PROGRAM_ERROR\<rparr>,
         world0\<lparr>trace := [prog_msg ?m 0xDC00], msgs := 1\<rparr>)"
    unfolding HRM_ICP_ProgramFlash_def
    by (subst program_loop.simps)
       (simp add: v program_block_def usb_control_msg_def emit_def world0_def prog_msg_def
          block_bytes_def example_hrm_def)
  with nb show ?thesis by simp
qed

subsection \<open>C6: the erase phase\<close>

text \<open>
  Claim C6: if an erase-block operation fails, the erase phase aborts at once: no
  erase transfer is issued for a later block, the run ends with the flash-erase
  error (exit status 4) and the program phase is not entered; otherwise the erase
  phase issues exactly 14 erase-block transfers at 512-byte increments over
  [0xDC00, 0xF800). The statement is about the part of \<open>main\<close> from the call of
  \<open>HRM_ICP_ReadS19\<close> on, with the device open and the file read. The status poll of
  block \<open>k\<close> is control transfer \<open>msgs w + 2 * k + 1\<close>. If all 14 polls report
  success, the events after \<open>w\<close> are the 14 erase operations in order, followed by
  events that contain no erase transfer. If block \<open>b\<close> is the first whose poll does
  not report success, the events are the erase operations of the blocks up to \<open>b\<close>
  and then \<open>Exit 4\<close>: nothing is erased or programmed after it. A status byte other
  than 1 makes the poll fail.
\<close>

theorem erase_phase_aborts_or_covers:
  assumes "usb_dev hrm"
    and "HRM_ICP_ReadS19 (line0 e) (s19_file e) hrm = Inr (HRM_OK, hrm1)"
  shows "((\<forall>k<14. status_ok (icp_device e) (msgs w + 2 * k + 1)) \<longrightarrow>
           (\<exists>evs. flash_file e hrm w = trace w @ concat (map erase_events erase_blocks) @ evs
                 \<and> filter is_erase_transfer evs = []))
       \<and> (b < 14 \<longrightarrow> (\<forall>k<b. status_ok (icp_device e) (msgs w + 2 * k + 1)) \<longrightarrow>
           \<not> status_ok (icp_device e) (msgs w + 2 * b + 1) \<longrightarrow>
           flash_file e hrm w
             = trace w @ concat (map erase_events (take (Suc b) erase_blocks)) @ [Exit 4])
       \<and> (snd (icp_device e n) \<noteq> 1 \<longrightarrow> \<not> status_ok (icp_device e) n)"
proof (intro conjI)
  from ReadS19_ok [OF assms(2)] assms(1)
  have h1: "last_errorcode hrm1 = 0" "usb_dev hrm1" by simp_all
  let ?h = "(fix_icp_flag hrm1)\<lparr>last_errorcode := 0\<rparr>"
  have h: "usb_dev ?h" "last_errorcode ?h = 0" using h1 by simp_all
  show "(\<forall>k<14. status_ok (icp_device e) (msgs w + 2 * k + 1)) \<longrightarrow>
           (\<exists>evs. flash_file e hrm w = trace w @ concat (map erase_events erase_blocks) @ evs
                 \<and> filter is_erase_transfer evs = [])"
  proof
    assume ok: "\<forall>k<14. status_ok (icp_device e) (msgs w + 2 * k + 1)"
    let ?w = "w\<lparr>trace := trace w @ concat (map erase_events erase_blocks), msgs := msgs w + 28\<rparr>"
    have er: "HRM_ICP_EraseFlash (icp_device e) (fix_icp_flag hrm1) w = (HRM_OK, ?h, ?w)"
      unfolding HRM_ICP_EraseFlash_def
      using erase_loop_ok [of 14 0 ?h "icp_device e" w] h ok by simp
    obtain r h3 w3 where pl: "HRM_ICP_ProgramFlash (icp_device e) ?h ?w = (r, h3, w3)"
      by (cases "HRM_ICP_ProgramFlash (icp_device e) ?h ?w") auto
    from pl program_loop_inv [of "icp_device e" MEM_OFFSET "?h\<lparr>last_errorcode := 0\<rparr>" ?w r h3 w3]
    obtain evs where evs: "trace w3 = trace ?w @ evs" "filter is_erase_transfer evs = []"
      unfolding HRM_ICP_ProgramFlash_def by auto
    let ?end = "case HRM_CheckError h3 of Some code \<Rightarrow> [Exit code] | None \<Rightarrow> [UsbClose, Exit 0]"
    have "flash_file e hrm w = trace w3 @ ?end"
      using assms(2) h1 er pl
      by (simp add: flash_file_def HRM_CheckError_def HRM_ICP_CloseUSB_def emit_def
          split: option.splits)
    with evs show "\<exists>evs. flash_file e hrm w = trace w @ concat (map erase_events erase_blocks) @ evs
                 \<and> filter is_erase_transfer evs = []"
      by (intro exI [of _ "evs @ ?end"]) (simp split: option.splits)
  qed
  show "b < 14 \<longrightarrow> (\<forall>k<b. status_ok (icp_device e) (msgs w + 2 * k + 1)) \<longrightarrow>
           \<not> status_ok (icp_device e) (msgs w + 2 * b + 1) \<longrightarrow>
           flash_file e hrm w
             = trace w @ concat (map erase_events (take (Suc b) erase_blocks)) @ [Exit 4]"
  proof (intro impI)
    assume b: "b < 14" and ok: "\<forall>k<b. status_ok (icp_device e) (msgs w + 2 * k + 1)"
      and bad: "\<not> status_ok (icp_device e) (msgs w + 2 * b + 1)"
    have er: "HRM_ICP_EraseFlash (icp_device e) (fix_icp_flag hrm1) w
        = (HRM_ERROR, ?h\<lparr>last_errorcode := HRM_FLASH_ERASE_ERROR\<rparr>,
           w\<lparr>trace := trace w @ concat (map erase_events (take (Suc b) erase_blocks)),
             msgs := msgs w + 2 * Suc b\<rparr>)"
      unfolding HRM_ICP_EraseFlash_def
      using erase_loop_bad [of b b 0 ?h "icp_device e" w] h b ok bad by simp
    show "flash_file e hrm w
             = trace w @ concat (map erase_events (take (Suc b) erase_blocks)) @ [Exit 4]"
      using assms(2) h1 er by (simp add: flash_file_def HRM_CheckError_def)
  qed
  show "snd (icp_device e n) \<noteq> 1 \<longrightarrow> \<not> status_ok (icp_device e) n"
    by (simp add: status_ok_def)
qed

text \<open>
  Two runs on an empty file: a device whose polls all succeed, and one whose sixth
  control transfer, the status poll of block 2, returns the status byte 0.
\<close>

theorem erase_phase_aborts_or_covers_witness:
  "usb_dev example_hrm
   \<and> HRM_ICP_ReadS19 (line0 (example_env (Some []) (\<lambda>n. (1, 1))))
         (s19_file (example_env (Some []) (\<lambda>n. (1, 1)))) example_hrm
       = Inr (HRM_OK, set_icp_flags (example_hrm\<lparr>last_errorcode := 0, mem := replicate MEM_SIZE 0xff\<rparr>))
   \<and> list_all (\<lambda>k. status_ok (\<lambda>n. (1, 1)) (msgs world0 + 2 * k + 1)) [0 ..< 14]
   \<and> (\<exists>evs. flash_file (example_env (Some []) (\<lambda>n. (1, 1))) example_hrm world0
               = trace world0 @ concat (map erase_events erase_blocks) @ evs
             \<and> filter is_erase_transfer evs = [])
   \<and> (2 :: nat) < 14
   \<and> list_all (\<lambda>k. status_ok (\<lambda>n. (1, if n = 5 then 0 else 1)) (msgs world0 + 2 * k + 1)) [0 ..< 2]
   \<and> \<not> status_ok (\<lambda>n. (1, if n = 5 then 0 else 1)) (msgs world0 + 2 * 2 + 1)
   \<and> snd ((\<lambda>n. (1 :: int, if n = 5 then 0 else 1 :: byte)) (5 :: nat)) \<noteq> 1
   \<and> flash_file (example_env (Some []) (\<lambda>n. (1, if n = 5 then 0 else 1))) example_hrm world0
         = trace world0 @ concat (map erase_events (take 3 erase_blocks)) @ [Exit 4]"
proof -
  let ?dA = "\<lambda>n :: nat. (1 :: int, 1 :: byte)"
  let ?dB = "\<lambda>n :: nat. (1 :: int, if n = 5 then 0 else 1 :: byte)"
  let ?h1 = "set_icp_flags (example_hrm\<lparr>last_errorcode := 0, mem := replicate MEM_SIZE 0xff\<rparr>)"
  have dev: "usb_dev example_hrm" by (simp add: example_hrm_def)
  have rd: "HRM_ICP_ReadS19 (line0 (example_env (Some []) d)) (s19_file (example_env (Some []) d))
              example_hrm = Inr (HRM_OK, ?h1)" for d
    by (simp add: example_env_def ReadS19_empty_file)
  have okA: "\<forall>k<14. status_ok ?dA (msgs world0 + 2 * k + 1)"
    by (simp add: status_ok_def)
  have okB: "\<forall>k<2. status_ok ?dB (msgs world0 + 2 * k + 1)"
    by (auto simp: status_ok_def world0_def)
  have badB: "\<not> status_ok ?dB (msgs world0 + 2 * 2 + 1)"
    by (simp add: status_ok_def world0_def)
  have A: "\<exists>evs. flash_file (example_env (Some []) ?dA) example_hrm world0
                = trace world0 @ concat (map erase_events erase_blocks) @ evs
              \<and> filter is_erase_transfer evs = []"
    using erase_phase_aborts_or_covers [OF dev rd, of ?dA world0 0 0] okA
    by (simp add: example_env_def)
  have B: "flash_file (example_env (Some []) ?dB) example_hrm world0
          = trace world0 @ concat (map erase_events (take 3 erase_blocks)) @ [Exit 4]"
    using erase_phase_aborts_or_covers [OF dev rd, of ?dB world0 2 0] okB badB
    by (simp add: example_env_def numeral_3_eq_3)
  have lA: "list_all (\<lambda>k. status_ok ?dA (msgs world0 + 2 * k + 1)) [0 ..< 14]"
    using okA by (simp add: list_all_iff del: upt_rec_numeral)
  have lB: "list_all (\<lambda>k. status_ok ?dB (msgs world0 + 2 * k + 1)) [0 ..< 2]"
    using okB by (simp add: list_all_iff del: upt_rec_numeral)
  show ?thesis using dev rd [of ?dA] lA A lB badB B by simp
qed

subsection \<open>C7: records outside the window\<close>

text \<open>
  Claim C7: a data record whose four-digit address lies outside [0xDC00, 0xF800) is
  skipped without error and leaves every byte of the image unchanged. First, for the
  body of the S1 branch on any line buffer whose characters 4 to 7 are hex digits, of
  either case, that write such an address: it returns the memory as it was. Second,
  for the loop on the text of such a record (of at most 250 payload bytes): it goes
  on with the rest of the file and the same memory. Third, for the whole of
  \<open>HRM_ICP_ReadS19\<close>: among well-formed records, the file with the record and the file
  without it give the same result.
\<close>

theorem record_outside_window_is_skipped:
  assumes "\<not> in_window a"
  shows "(8 \<le> length line \<longrightarrow> hex_text 4 (take 4 (drop 4 line)) a \<longrightarrow> s1_line line m = Inr (m, None))
     \<and> (spells sp (a, bs, cc) \<longrightarrow> length bs \<le> 250 \<longrightarrow> length m = MEM_SIZE \<longrightarrow>
          read_lines line m (text_of sp @ rest) = read_lines (store_line (text_of sp) line) m rest)
     \<and> (spells sp (a, bs, cc) \<longrightarrow> length bs \<le> 250 \<longrightarrow>
          list_all2 spells sps rs \<longrightarrow> list_all wf_record rs \<longrightarrow>
          list_all2 spells sps' rs' \<longrightarrow> list_all wf_record rs' \<longrightarrow>
          (tail = [] \<or> take 2 tail = ''S9'') \<longrightarrow>
          HRM_ICP_ReadS19 l (Some (file_text (sps @ sp # sps') @ tail)) hrm
            = HRM_ICP_ReadS19 l (Some (file_text (sps @ sps') @ tail)) hrm)"
proof (intro conjI impI)
  assume len: "8 \<le> length line" and ad: "hex_text 4 (take 4 (drop 4 line)) a"
  have l: "line = take 4 line @ take 4 (drop 4 line) @ drop 8 line"
    by (metis append_take_drop_id drop_drop numeral_Bit0 take_drop)
  have r2: "strncpy_from line 4 4 = Inr (take 4 (drop 4 line))"
    by (rule strncpy_from_at [OF l]) (use len in \<open>simp_all add: hex_text_NUL [OF ad]\<close>)
  from strncpy_from_total [of 2 2 line] len obtain s where r1: "strncpy_from line 2 2 = Inr s"
    by auto
  have out: "a < MEM_OFFSET \<or> MEM_OFFSET + MEM_SIZE \<le> a"
    using assms by (auto simp: in_window_def)
  show "s1_line line m = Inr (m, None)"
    using out by (simp add: s1_line_def r1 r2 strtoul16_hex_text [OF ad] Let_def
        del: strncpy_from_numeral)
next
  assume sp: "spells sp (a, bs, cc)" and n: "length bs \<le> 250" and m: "length m = MEM_SIZE"
  have wf: "wf_record (a, bs, cc)"
    using assms n spells_address [OF sp] by (simp add: wf_record_def)
  show "read_lines line m (text_of sp @ rest) = read_lines (store_line (text_of sp) line) m rest"
    using read_lines_spelled [OF sp wf m, of line rest] assms by (simp add: put_record_def)
next
  assume sp: "spells sp (a, bs, cc)" and n: "length bs \<le> 250"
    and rs: "list_all2 spells sps rs" "list_all wf_record rs"
    and rs': "list_all2 spells sps' rs'" "list_all wf_record rs'"
    and tail: "tail = [] \<or> take 2 tail = ''S9''"
  have wf: "wf_record (a, bs, cc)"
    using assms n spells_address [OF sp] by (simp add: wf_record_def)
  have 1: "list_all2 spells (sps @ sp # sps') (rs @ (a, bs, cc) # rs')"
    using rs(1) rs'(1) sp by (intro list_all2_appendI) simp_all
  have 2: "list_all2 spells (sps @ sps') (rs @ rs')"
    using rs(1) rs'(1) by (rule list_all2_appendI)
  have w1: "list_all wf_record (rs @ (a, bs, cc) # rs')" using rs(2) rs'(2) wf by simp
  have w2: "list_all wf_record (rs @ rs')" using rs(2) rs'(2) by simp
  show "HRM_ICP_ReadS19 l (Some (file_text (sps @ sp # sps') @ tail)) hrm
            = HRM_ICP_ReadS19 l (Some (file_text (sps @ sps') @ tail)) hrm"
    unfolding ReadS19_spelled [OF 1 w1 tail] ReadS19_spelled [OF 2 w2 tail]
    by (simp only: fold_put_record_skip [OF assms])
qed

text \<open>
  The witness: the record \<^verbatim>\<open>S104fa000100\<close>, at address 0xFA00, in the line buffer
  and as the text of a file.
\<close>

theorem record_outside_window_is_skipped_witness:
  "\<not> in_window 0xFA00
   \<and> 8 \<le> length (store_line (''S104fa000100'' @ [CHR 0x0A]) example_line)
   \<and> hex_text 4 (take 4 (drop 4 (store_line (''S104fa000100'' @ [CHR 0x0A]) example_line))) 0xFA00
   \<and> s1_line (store_line (''S104fa000100'' @ [CHR 0x0A]) example_line) (replicate MEM_SIZE 0xff)
        = Inr (replicate MEM_SIZE 0xff, None)
   \<and> spells (''04'', ''fa00'', [''01''], ''00'') (0xFA00, [0x01], 0x00)
   \<and> text_of (''04'', ''fa00'', [''01''], ''00'') = ''S104fa000100'' @ [CHR 0x0A]
   \<and> length [0x01 :: byte] \<le> 250 \<and> length (replicate MEM_SIZE (0xff :: byte)) = MEM_SIZE
   \<and> read_lines example_line (replicate MEM_SIZE 0xff) (text_of (''04'', ''fa00'', [''01''], ''00'') @ [])
        = read_lines (store_line (text_of (''04'', ''fa00'', [''01''], ''00'')) example_line)
            (replicate MEM_SIZE 0xff) []
   \<and> list_all2 spells [(''04'', ''DC00'', [''AA''], ''75'')] [(0xDC00, [0xAA], 0x75)]
   \<and> list_all wf_record [(0xDC00, [0xAA], 0x75)]
   \<and> HRM_ICP_ReadS19 example_line
        (Some (file_text ([(''04'', ''DC00'', [''AA''], ''75'')] @ (''04'', ''fa00'', [''01''], ''00'') # []) @ []))
        example_hrm
        = HRM_ICP_ReadS19 example_line
            (Some (file_text ([(''04'', ''DC00'', [''AA''], ''75'')] @ []) @ [])) example_hrm"
proof -
  let ?line = "store_line (''S104fa000100'' @ [CHR 0x0A]) example_line"
  let ?sp = "(''04'', ''fa00'', [''01''], ''00'') :: s1_spelling"
  let ?sps = "[(''04'', ''DC00'', [''AA''], ''75'')] :: s1_spelling list"
  have o: "\<not> in_window 0xFA00" by (simp add: in_window_def)
  have l: "8 \<le> length ?line" by (simp add: store_line_def)
  have h: "hex_text 4 (take 4 (drop 4 ?line)) 0xFA00"
    by (simp add: store_line_def hex_text_def hex_digit_def)
  have sp: "spells ?sp (0xFA00, [0x01], 0x00)" by (simp add: spells_eval)
  have t: "text_of ?sp = ''S104fa000100'' @ [CHR 0x0A]" by (simp add: text_of_def)
  have n: "length [0x01 :: byte] \<le> 250" by simp
  have m: "length (replicate MEM_SIZE (0xff :: byte)) = MEM_SIZE" by simp
  have s: "list_all2 spells ?sps [(0xDC00, [0xAA], 0x75)]" "list_all2 spells [] []"
    by (simp_all add: spells_eval)
  have w: "list_all wf_record [(0xDC00, [0xAA], 0x75)]" "list_all wf_record []"
    by (simp_all add: wf_record_def)
  have e: "(([] :: string) = [] \<or> take 2 ([] :: string) = ''S9'')" by simp
  note t1 = record_outside_window_is_skipped [OF o,
      where line = ?line and m = "replicate MEM_SIZE 0xff" and sp = ?sp and bs = "[0x01]"
        and cc = "0x00" and rest = "[]" and sps = ?sps and rs = "[(0xDC00, [0xAA], 0x75)]"
        and sps' = "[]" and rs' = "[]" and tail = "[]" and l = example_line and hrm = example_hrm]
  note t2 = record_outside_window_is_skipped [OF o,
      where line = example_line and m = "replicate MEM_SIZE 0xff" and sp = ?sp and bs = "[0x01]"
        and cc = "0x00" and rest = "[]" and sps = ?sps and rs = "[(0xDC00, [0xAA], 0x75)]"
        and sps' = "[]" and rs' = "[]" and tail = "[]" and l = example_line and hrm = example_hrm]
  show ?thesis using o l h sp t n m s w e t1 t2 by blast
qed

subsection \<open>C8: closing the device\<close>

text \<open>
  Claim C8 says that every run that opened the device closes the handle before the
  process exits, also when it aborts. In the run below the device is found and
  configured at the first attempt, the file is read, and the status poll of the first
  erase block returns the status byte 0: \<open>HRM_CheckError\<close> ends the process with
  status 4, and the trace has no \<open>UsbClose\<close>.
\<close>

theorem erase_failure_exits_without_close:
  "main \<lparr>argv_keys = None, hid_open = False, hid_config = 0, hid_tmp = [],
          icp_open = (\<lambda>k. True), icp_config = (\<lambda>k. 0),
          s19_file = Some (''S107DC000102030412'' @ [CHR 0x0A]),
          hrm0 = h, line0 = l, icp_device = (\<lambda>n. if n = 0 then (0, 0) else (1, 0))\<rparr>
   = [UsbOpen ICP_VID ICP_PID True, UsbSetConfiguration 0,
      UsbControlMsg 0x40 0x82 0xDC00 0xDDFF [] 0, Sleep 5,
      UsbControlMsg 0xC0 0x8F 0 0 [] 1, Sleep 5, Exit 4]"
  by (simp add: main_def init_loop_30 HRM_ICP_InitUSB_def emit_def HRM_CheckError_def
      flash_file_def HRM_ICP_ReadS19_def parse_eval HRM_ICP_EraseFlash_def
      erase_loop.simps [of _ MEM_OFFSET] HRM_ICP_EraseFlashBlock_def usb_control_msg_def)

subsection \<open>C9: writes stay inside the image\<close>

text \<open>
  Claim C9 says that every payload byte of a record accepted by the address check is
  written inside the image, whatever the byte count. The check looks at the start
  address only. The record below starts at 0xF7FF, the last byte of the window, and
  carries two bytes: the second is written to index 0x1C00, outside \<^verbatim>\<open>hrm->mem\<close>.
\<close>

theorem payload_write_outside_image:
  "HRM_ICP_ReadS19 l (Some (''S105F7FF010201'' @ [CHR 0x0A])) h = Inl MemOverrun"
  by (simp add: HRM_ICP_ReadS19_def parse_eval)

subsection \<open>C10: the checksum byte of a record\<close>

text \<open>
  Claim C10 says that two input files that differ only in the trailing checksum byte
  of a data record give the same image and the same flags. The two files below
  differ only in the checksum byte of their first record (0x75, the right one, and
  0x00). Their second line announces two payload bytes and ends after the address:
  the data loop reads on in the line buffer, where the two checksum digits of the
  first line still stand, and stores them as a payload byte at index 17. The images
  differ there, whatever the line buffer held at first.
\<close>

theorem stale_line_buffer_exposes_checksum_byte:
  "(\<exists>h1. HRM_ICP_ReadS19 l (Some (''S104DC00AA75'' @ [CHR 0x0A] @ ''S105DC10'' @ [CHR 0x0A])) hrm
            = Inr (HRM_OK, h1) \<and> mem h1 ! 17 = 0x75)
   \<and> (\<exists>h2. HRM_ICP_ReadS19 l (Some (''S104DC00AA00'' @ [CHR 0x0A] @ ''S105DC10'' @ [CHR 0x0A])) hrm
            = Inr (HRM_OK, h2) \<and> mem h2 ! 17 = 0x00)"
  by (simp add: HRM_ICP_ReadS19_def parse_eval)

text \<open>
  On files made of well-formed S1 records (the text, in hex digits of either case, of
  records with at most 250 payload bytes and a payload that ends in the window when
  it starts there), followed by nothing or by an S9 record, the checksum bytes have
  no effect: two files whose records agree in address and payload give the same
  result of \<open>HRM_ICP_ReadS19\<close> (image, stored flag, calculated flag), whatever the line
  buffer held at first.
\<close>

theorem checksum_byte_is_ignored:
  assumes "list_all2 spells sps rs" and "list_all2 spells sps' rs'"
    and "list_all wf_record rs" and "map record_data rs = map record_data rs'"
    and "rest = [] \<or> take 2 rest = ''S9''"
  shows "HRM_ICP_ReadS19 l (Some (file_text sps @ rest)) hrm
       = HRM_ICP_ReadS19 l' (Some (file_text sps' @ rest)) hrm"
proof -
  have wf': "list_all wf_record rs'" by (rule list_all_wf_data [OF assms(4,3)])
  show ?thesis
    unfolding ReadS19_spelled [OF assms(1,3,5)] ReadS19_spelled [OF assms(2) wf' assms(5)]
    by (simp add: fold_put_record_data [OF assms(4)])
qed

text \<open>
  An instance: a record in the window and one outside it, once with their right
  checksum bytes and once with wrong ones.
\<close>

theorem checksum_byte_is_ignored_witness:
  "list_all2 spells [(''04'', ''DC00'', [''AA''], ''75''), (''04'', ''1000'', [''01''], ''EA'')]
                    [(0xDC00, [0xAA], 0x75), (0x1000, [0x01], 0xEA)]
   \<and> list_all2 spells [(''04'', ''dc00'', [''aa''], ''00''), (''04'', ''1000'', [''01''], ''ff'')]
                    [(0xDC00, [0xAA], 0x00), (0x1000, [0x01], 0xFF)]
   \<and> list_all wf_record [(0xDC00, [0xAA], 0x75), (0x1000, [0x01], 0xEA)]
   \<and> map record_data [(0xDC00, [0xAA], 0x75), (0x1000, [0x01], 0xEA)]
       = map record_data [(0xDC00, [0xAA], 0x00), (0x1000, [0x01], 0xFF)]
   \<and> HRM_ICP_ReadS19 example_line
       (Some (file_text [(''04'', ''DC00'', [''AA''], ''75''), (''04'', ''1000'', [''01''], ''EA'')] @ []))
       example_hrm
       = HRM_ICP_ReadS19 example_line
           (Some (file_text [(''04'', ''dc00'', [''aa''], ''00''), (''04'', ''1000'', [''01''], ''ff'')] @ []))
           example_hrm"
proof -
  let ?sps = "[(''04'', ''DC00'', [''AA''], ''75''), (''04'', ''1000'', [''01''], ''EA'')] :: s1_spelling list"
  let ?sps' = "[(''04'', ''dc00'', [''aa''], ''00''), (''04'', ''1000'', [''01''], ''ff'')] :: s1_spelling list"
  let ?rs = "[(0xDC00, [0xAA], 0x75), (0x1000, [0x01], 0xEA)] :: s1_record list"
  let ?rs' = "[(0xDC00, [0xAA], 0x00), (0x1000, [0x01], 0xFF)] :: s1_record list"
  have s: "list_all2 spells ?sps ?rs" "list_all2 spells ?sps' ?rs'" by (simp_all add: spells_eval)
  have wf: "list_all wf_record ?rs" by (simp add: wf_record_def in_window_def)
  have eq: "map record_data ?rs = map record_data ?rs'" by (simp add: record_data_def)
  have e: "([] :: string) = [] \<or> take 2 ([] :: string) = ''S9''" by simp
  from checksum_byte_is_ignored [OF s wf eq e, of example_line example_hrm example_line] s wf eq
  show ?thesis by blast
qed

end
